theory Spec2Isabelle
  imports Complex_Main "HOL-Library.Word" "HOL-Library.Sublist"
begin

unbundle bit_operations_syntax

section \<open>Python values used by MissionCommander\<close>

text \<open>
  A Python \<open>str\<close> is a sequence of Unicode code points (each below \<open>0x110000\<close>,
  lone surrogates allowed); \<open>bytes\<close> is a sequence of octets. Both are lists of
  naturals here, the range being a well-formedness predicate.
\<close>

type_synonym pystr = "nat list"
type_synonym pybytes = "nat list"

definition ascii :: "string \<Rightarrow> pystr" where
  "ascii s = map of_char s"

definition wf_str :: "pystr \<Rightarrow> bool" where
  "wf_str s = list_all (\<lambda>c. c < 0x110000) s"

text \<open>The exceptions that the modelled code raises or catches.\<close>

datatype exn =
    AttributeError | ValueError | KeyError | TypeError | OverflowError
  | UnicodeDecodeError | UnicodeEncodeError | JSONDecodeError | UnboundLocalError
  | SocketTimeout | ConnectionRefusedError | OSError | PyException

text \<open>
  The values \<open>json.loads\<close> can return. The type parameter \<open>'f\<close> stands for Python's
  \<open>float\<close>: its text form and its parsing belong to the interpreter and are taken
  as parameters wherever they are needed.
\<close>

datatype 'f json =
    JNull
  | JBool bool
  | JInt int
  | JFloat 'f
  | JStr pystr
  | JArr "'f json list"
  | JObj "(pystr \<times> 'f json) list"

subsection \<open>Python truth value and subscription of a received value\<close>

text \<open>\<open>bool(v)\<close>; the truth value of a float is a parameter.\<close>

fun truthy :: "('f \<Rightarrow> bool) \<Rightarrow> 'f json \<Rightarrow> bool" where
  "truthy fb JNull = False"
| "truthy fb (JBool b) = b"
| "truthy fb (JInt n) = (n \<noteq> 0)"
| "truthy fb (JFloat x) = fb x"
| "truthy fb (JStr s) = (s \<noteq> [])"
| "truthy fb (JArr xs) = (xs \<noteq> [])"
| "truthy fb (JObj kvs) = (kvs \<noteq> [])"

text \<open>\<open>v[key]\<close> for a string key: only a dict holding the key answers.\<close>

fun getitem :: "'f json \<Rightarrow> pystr \<Rightarrow> exn + 'f json" where
  "getitem (JObj kvs) k = (case map_of kvs k of None \<Rightarrow> Inl KeyError | Some v \<Rightarrow> Inr v)"
| "getitem v k = Inl TypeError"

text \<open>Lists and dicts cannot be dictionary keys.\<close>

fun hashable :: "'f json \<Rightarrow> bool" where
  "hashable (JArr xs) = False"
| "hashable (JObj kvs) = False"
| "hashable v = True"

subsection \<open>connection.py: Message\<close>

record 'f message =
  subject :: "'f json"
  payload :: "'f json"

definition Message :: "'f json \<Rightarrow> 'f json \<Rightarrow> 'f message" where
  "Message subj pl = \<lparr> subject = subj, payload = pl \<rparr>"

subsection \<open>The json module: dumps\<close>

text \<open>
  \<open>json.dumps(v, indent=None)\<close> with its defaults: \<open>ensure_ascii\<close> escapes every character
  outside the printable ASCII range (a backslash, \<open>u\<close> and four lower-case hexadecimal
  digits; a surrogate pair for a code point above \<open>0xFFFF\<close>), and the quote, the
  backslash and the control characters \<open>b f n r t\<close> with their short escapes; the
  separators are a comma and a space between items, a colon and a space after a key.
  The text of a float is the parameter \<open>fr\<close>.
\<close>

definition hexdigit :: "nat \<Rightarrow> nat" where
  "hexdigit d = (if d < 10 then 48 + d else 87 + d)"

definition hex4 :: "nat \<Rightarrow> pystr" where
  "hex4 n = [hexdigit (n div 4096 mod 16), hexdigit (n div 256 mod 16),
             hexdigit (n div 16 mod 16), hexdigit (n mod 16)]"

definition esc_char :: "nat \<Rightarrow> pystr" where
  "esc_char c =
     (if c = 34 then [92, 34]
      else if c = 92 then [92, 92]
      else if c = 10 then [92, 110]
      else if c = 13 then [92, 114]
      else if c = 9 then [92, 116]
      else if c = 12 then [92, 102]
      else if c = 8 then [92, 98]
      else if 32 \<le> c \<and> c \<le> 126 then [c]
      else if c < 0x10000 then [92, 117] @ hex4 c
      else [92, 117] @ hex4 (0xD800 + (c - 0x10000) div 1024)
         @ [92, 117] @ hex4 (0xDC00 + (c - 0x10000) mod 1024))"

definition encode_basestring_ascii :: "pystr \<Rightarrow> pystr" where
  "encode_basestring_ascii s = [34] @ concat (map esc_char s) @ [34]"

text \<open>The decimal text of an integer, as \<open>int.__repr__\<close> gives it.\<close>

fun digits :: "nat \<Rightarrow> pystr" where
  "digits n = (if n < 10 then [48 + n] else digits (n div 10) @ [48 + n mod 10])"

declare digits.simps [simp del]

definition repr_int :: "int \<Rightarrow> pystr" where
  "repr_int i = (if i < 0 then 45 # digits (nat (- i)) else digits (nat i))"

fun join_sep :: "pystr list \<Rightarrow> pystr" where
  "join_sep [] = []"
| "join_sep [x] = x"
| "join_sep (x # y # ys) = x @ [44, 32] @ join_sep (y # ys)"

fun dumps :: "('f \<Rightarrow> pystr) \<Rightarrow> 'f json \<Rightarrow> pystr" where
  "dumps fr JNull = ascii ''null''"
| "dumps fr (JBool b) = (if b then ascii ''true'' else ascii ''false'')"
| "dumps fr (JInt i) = repr_int i"
| "dumps fr (JFloat x) = fr x"
| "dumps fr (JStr s) = encode_basestring_ascii s"
| "dumps fr (JArr xs) = [91] @ join_sep (map (dumps fr) xs) @ [93]"
| "dumps fr (JObj kvs) =
     [123] @ join_sep (map (\<lambda>kv. encode_basestring_ascii (fst kv) @ [58, 32] @ dumps fr (snd kv)) kvs)
       @ [125]"

subsection \<open>str.encode('utf-8')\<close>

text \<open>The strict encoder: a surrogate code point raises \<open>UnicodeEncodeError\<close>.\<close>

definition utf8_char :: "nat \<Rightarrow> pybytes option" where
  "utf8_char c =
     (if c < 0x80 then Some [c]
      else if c < 0x800 then Some [0xC0 + c div 64, 0x80 + c mod 64]
      else if 0xD800 \<le> c \<and> c \<le> 0xDFFF then None
      else if c < 0x10000 then Some [0xE0 + c div 4096, 0x80 + c div 64 mod 64, 0x80 + c mod 64]
      else if c < 0x110000
           then Some [0xF0 + c div 262144, 0x80 + c div 4096 mod 64,
                      0x80 + c div 64 mod 64, 0x80 + c mod 64]
      else None)"

fun utf8_encode :: "pystr \<Rightarrow> exn + pybytes" where
  "utf8_encode [] = Inr []"
| "utf8_encode (c # cs) =
     (case utf8_char c of
        None \<Rightarrow> Inl UnicodeEncodeError
      | Some bs \<Rightarrow> (case utf8_encode cs of Inl e \<Rightarrow> Inl e | Inr rest \<Rightarrow> Inr (bs @ rest)))"

subsection \<open>bytes.decode('utf-8')\<close>

text \<open>
  The strict decoder: overlong forms, surrogates, code points above \<open>0x10FFFF\<close> and
  truncated sequences raise \<open>UnicodeDecodeError\<close>, here \<open>None\<close>.
\<close>

definition is_cont :: "nat \<Rightarrow> bool" where
  "is_cont b = (0x80 \<le> b \<and> b \<le> 0xBF)"

fun utf8_decode :: "pybytes \<Rightarrow> pystr option" where
  "utf8_decode [] = Some []"
| "utf8_decode (b # bs) =
     (if b < 0x80 then map_option ((#) b) (utf8_decode bs)
      else if 0xC2 \<le> b \<and> b \<le> 0xDF then
        (case bs of
           b1 # r \<Rightarrow>
             if is_cont b1
             then map_option ((#) ((b - 0xC0) * 64 + (b1 - 0x80))) (utf8_decode r)
             else None
         | _ \<Rightarrow> None)
      else if 0xE0 \<le> b \<and> b \<le> 0xEF then
        (case bs of
           b1 # b2 # r \<Rightarrow>
             if is_cont b1 \<and> is_cont b2 \<and> (b \<noteq> 0xE0 \<or> 0xA0 \<le> b1)
                \<and> (b \<noteq> 0xED \<or> b1 \<le> 0x9F)
             then map_option ((#) ((b - 0xE0) * 4096 + (b1 - 0x80) * 64 + (b2 - 0x80)))
                    (utf8_decode r)
             else None
         | _ \<Rightarrow> None)
      else if 0xF0 \<le> b \<and> b \<le> 0xF4 then
        (case bs of
           b1 # b2 # b3 # r \<Rightarrow>
             if is_cont b1 \<and> is_cont b2 \<and> is_cont b3 \<and> (b \<noteq> 0xF0 \<or> 0x90 \<le> b1)
                \<and> (b \<noteq> 0xF4 \<or> b1 \<le> 0x8F)
             then map_option
                    ((#) ((b - 0xF0) * 262144 + (b1 - 0x80) * 4096 + (b2 - 0x80) * 64
                          + (b3 - 0x80)))
                    (utf8_decode r)
             else None
         | _ \<Rightarrow> None)
      else None)"

subsection \<open>The json module: loads\<close>

text \<open>
  \<open>json.loads\<close> as the C scanner of CPython does it: optional whitespace (space, tab,
  newline, return) around every token, strings in strict mode (no raw control
  character; a backslash escapes a quote, a backslash, a slash, \<open>b f n r t\<close> or
  \<open>uXXXX\<close>; an escaped high surrogate immediately followed by an escaped low surrogate
  is joined into one code point),
  numbers \<open>-?(0|[1-9][0-9]*)(.[0-9]+)?([eE][-+]?[0-9]+)?\<close>, the constants \<open>null\<close>,
  \<open>true\<close>, \<open>false\<close>, \<open>NaN\<close>, \<open>Infinity\<close>, \<open>-Infinity\<close>, arrays and objects; a later
  duplicate key overwrites the value of the earlier one. Every error is a
  \<open>JSONDecodeError\<close>, here \<open>None\<close>. The value of a float lexeme is the parameter \<open>pf\<close>.
  The scanner recurses on the nesting; the fuel bounds the recursion and is set by
  \<open>loads\<close> from the length of the text. Python's own limit on the nesting depth
  (\<open>RecursionError\<close>) is not modelled.
\<close>

definition is_ws :: "nat \<Rightarrow> bool" where
  "is_ws c = (c = 32 \<or> c = 9 \<or> c = 10 \<or> c = 13)"

definition skip_ws :: "pystr \<Rightarrow> pystr" where
  "skip_ws s = dropWhile is_ws s"

definition is_digit :: "nat \<Rightarrow> bool" where
  "is_digit c = (48 \<le> c \<and> c \<le> 57)"

definition hexval :: "nat \<Rightarrow> nat option" where
  "hexval c =
     (if 48 \<le> c \<and> c \<le> 57 then Some (c - 48)
      else if 97 \<le> c \<and> c \<le> 102 then Some (c - 87)
      else if 65 \<le> c \<and> c \<le> 70 then Some (c - 55)
      else None)"

fun unhex4 :: "pystr \<Rightarrow> (nat \<times> pystr) option" where
  "unhex4 (a # b # c # d # rest) =
     (case hexval a of None \<Rightarrow> None | Some x \<Rightarrow>
      case hexval b of None \<Rightarrow> None | Some y \<Rightarrow>
      case hexval c of None \<Rightarrow> None | Some z \<Rightarrow>
      case hexval d of None \<Rightarrow> None | Some w \<Rightarrow>
        Some (((x * 16 + y) * 16 + z) * 16 + w, rest))"
| "unhex4 s = None"

definition is_high_surrogate :: "nat \<Rightarrow> bool" where
  "is_high_surrogate u = (0xD800 \<le> u \<and> u \<le> 0xDBFF)"

definition is_low_surrogate :: "nat \<Rightarrow> bool" where
  "is_low_surrogate u = (0xDC00 \<le> u \<and> u \<le> 0xDFFF)"

definition join_surrogates :: "nat \<Rightarrow> nat \<Rightarrow> nat" where
  "join_surrogates hi lo = 0x10000 + ((hi - 0xD800) * 1024 + (lo - 0xDC00))"

text \<open>The second half of a surrogate pair.\<close>

definition low_escape :: "pystr \<Rightarrow> (nat \<times> pystr) option" where
  "low_escape s =
     (if 6 < length s \<and> take 2 s = [92, 117]
      then (case unhex4 (drop 2 s) of
              None \<Rightarrow> None
            | Some (u2, rest) \<Rightarrow> if is_low_surrogate u2 then Some (u2, rest) else None)
      else None)"

definition unescape :: "nat \<Rightarrow> nat option" where
  "unescape e =
     (if e = 34 then Some 34 else if e = 92 then Some 92 else if e = 47 then Some 47
      else if e = 98 then Some 8 else if e = 102 then Some 12 else if e = 110 then Some 10
      else if e = 114 then Some 13 else if e = 116 then Some 9 else None)"

lemma unhex4_length: "unhex4 s = Some (u, rest) \<Longrightarrow> length rest < length s"
  by (induction s rule: unhex4.induct) (auto split: option.splits)

lemma low_escape_length: "low_escape s = Some (u, rest) \<Longrightarrow> length rest < length s"
  by (auto simp: low_escape_def split: if_splits option.splits prod.splits dest!: unhex4_length)

function scanstring :: "pystr \<Rightarrow> pystr \<Rightarrow> (pystr \<times> pystr) option" where
  "scanstring [] acc = None"
| "scanstring (c # cs) acc =
     (if c = 34 then Some (acc, cs)
      else if c = 92 then
        (case cs of
           [] \<Rightarrow> None
         | e # cs' \<Rightarrow>
             if e = 117 then
               (case unhex4 cs' of
                  None \<Rightarrow> None
                | Some (u, rest) \<Rightarrow>
                    (case (if is_high_surrogate u then low_escape rest else None) of
                       Some (u2, rest2) \<Rightarrow> scanstring rest2 (acc @ [join_surrogates u u2])
                     | None \<Rightarrow> scanstring rest (acc @ [u])))
             else (case unescape e of
                     None \<Rightarrow> None
                   | Some ch \<Rightarrow> scanstring cs' (acc @ [ch])))
      else if c < 32 then None
      else scanstring cs (acc @ [c]))"
  by pat_completeness auto
termination
  by (relation "measure (\<lambda>(s, acc). length s)")
     (auto split: if_splits dest!: unhex4_length low_escape_length)

declare scanstring.simps [simp del]

definition nat_of_digits :: "pystr \<Rightarrow> nat" where
  "nat_of_digits ds = foldl (\<lambda>a c. a * 10 + (c - 48)) 0 ds"

definition int_of_lexeme :: "pystr \<Rightarrow> int" where
  "int_of_lexeme numstr =
     (case numstr of
        [] \<Rightarrow> 0
      | c # ds \<Rightarrow> if c = 45 then - int (nat_of_digits ds) else int (nat_of_digits (c # ds)))"

definition match_int :: "pystr \<Rightarrow> (pystr \<times> pystr) option" where
  "match_int s =
     (let sg = (case s of [] \<Rightarrow> [] | c # t \<Rightarrow> if c = 45 then [45] else []);
          s1 = drop (length sg) s
      in case s1 of
           [] \<Rightarrow> None
         | c # t \<Rightarrow>
             if 49 \<le> c \<and> c \<le> 57
             then Some (sg @ c # takeWhile is_digit t, dropWhile is_digit t)
             else if c = 48 then Some (sg @ [48], t)
             else None)"

definition match_frac :: "pystr \<Rightarrow> pystr \<times> pystr" where
  "match_frac s =
     (case s of
        c # d # t \<Rightarrow>
          if c = 46 \<and> is_digit d
          then (c # d # takeWhile is_digit t, dropWhile is_digit t)
          else ([], s)
      | _ \<Rightarrow> ([], s))"

definition match_exp :: "pystr \<Rightarrow> pystr \<times> pystr" where
  "match_exp s =
     (case s of
        [] \<Rightarrow> ([], s)
      | e # t \<Rightarrow>
          if e = 101 \<or> e = 69
          then
            (let sg = (case t of
                         c # t' \<Rightarrow> if (c = 45 \<or> c = 43) \<and> t' \<noteq> [] then [c] else []
                       | [] \<Rightarrow> []);
                 t1 = drop (length sg) t
             in if takeWhile is_digit t1 \<noteq> []
                then (e # sg @ takeWhile is_digit t1, dropWhile is_digit t1)
                else ([], s))
          else ([], s))"

definition match_number :: "(pystr \<Rightarrow> 'f) \<Rightarrow> pystr \<Rightarrow> ('f json \<times> pystr) option" where
  "match_number pf s =
     (case match_int s of
        None \<Rightarrow> None
      | Some (integer, r) \<Rightarrow>
          (case match_frac r of (fr, r1) \<Rightarrow>
           case match_exp r1 of (ex, r2) \<Rightarrow>
             if fr \<noteq> [] \<or> ex \<noteq> []
             then Some (JFloat (pf (integer @ fr @ ex)), r2)
             else Some (JInt (int_of_lexeme integer), r2)))"

fun dict_setitem :: "pystr \<Rightarrow> 'v \<Rightarrow> (pystr \<times> 'v) list \<Rightarrow> (pystr \<times> 'v) list" where
  "dict_setitem k v [] = [(k, v)]"
| "dict_setitem k v (e # d) = (if fst e = k then (fst e, v) # d else e # dict_setitem k v d)"

definition starts_with :: "pystr \<Rightarrow> pystr \<Rightarrow> bool" where
  "starts_with p s = (take (length p) s = p)"

fun scan_once :: "nat \<Rightarrow> (pystr \<Rightarrow> 'f) \<Rightarrow> pystr \<Rightarrow> ('f json \<times> pystr) option"
and parse_object_items ::
  "nat \<Rightarrow> (pystr \<Rightarrow> 'f) \<Rightarrow> (pystr \<times> 'f json) list \<Rightarrow> pystr \<Rightarrow> ('f json \<times> pystr) option"
and parse_array_items ::
  "nat \<Rightarrow> (pystr \<Rightarrow> 'f) \<Rightarrow> 'f json list \<Rightarrow> pystr \<Rightarrow> ('f json \<times> pystr) option"
where
  "scan_once 0 pf s = None"
| "scan_once (Suc n) pf [] = None"
| "scan_once (Suc n) pf (c # cs) =
     (if c = 34 then
        (case scanstring cs [] of None \<Rightarrow> None | Some (str, rest) \<Rightarrow> Some (JStr str, rest))
      else if c = 123 then
        (case skip_ws cs of
           [] \<Rightarrow> None
         | d # r \<Rightarrow> if d = 125 then Some (JObj [], r) else parse_object_items n pf [] (d # r))
      else if c = 91 then
        (case skip_ws cs of
           [] \<Rightarrow> None
         | d # r \<Rightarrow> if d = 93 then Some (JArr [], r) else parse_array_items n pf [] (d # r))
      else if c = 110 \<and> starts_with (ascii ''ull'') cs then Some (JNull, drop 3 cs)
      else if c = 116 \<and> starts_with (ascii ''rue'') cs then Some (JBool True, drop 3 cs)
      else if c = 102 \<and> starts_with (ascii ''alse'') cs then Some (JBool False, drop 4 cs)
      else if c = 78 \<and> starts_with (ascii ''aN'') cs
           then Some (JFloat (pf (ascii ''NaN'')), drop 2 cs)
      else if c = 73 \<and> starts_with (ascii ''nfinity'') cs
           then Some (JFloat (pf (ascii ''Infinity'')), drop 7 cs)
      else if c = 45 \<and> starts_with (ascii ''Infinity'') cs
           then Some (JFloat (pf (ascii ''-Infinity'')), drop 8 cs)
      else match_number pf (c # cs))"
| "parse_object_items 0 pf acc s = None"
| "parse_object_items (Suc n) pf acc [] = None"
| "parse_object_items (Suc n) pf acc (c # cs) =
     (if c \<noteq> 34 then None
      else
        (case scanstring cs [] of
           None \<Rightarrow> None
         | Some (key, r) \<Rightarrow>
             (case skip_ws r of
                [] \<Rightarrow> None
              | d # r1 \<Rightarrow>
                  if d \<noteq> 58 then None
                  else
                    (case scan_once n pf (skip_ws r1) of
                       None \<Rightarrow> None
                     | Some (v, r2) \<Rightarrow>
                         (case skip_ws r2 of
                            [] \<Rightarrow> None
                          | e # r3 \<Rightarrow>
                              if e = 125 then Some (JObj (dict_setitem key v acc), r3)
                              else if e = 44
                              then parse_object_items n pf (dict_setitem key v acc) (skip_ws r3)
                              else None)))))"
| "parse_array_items 0 pf acc s = None"
| "parse_array_items (Suc n) pf acc s =
     (case scan_once n pf s of
        None \<Rightarrow> None
      | Some (v, r) \<Rightarrow>
          (case skip_ws r of
             [] \<Rightarrow> None
           | e # r1 \<Rightarrow>
               if e = 93 then Some (JArr (acc @ [v]), r1)
               else if e = 44 then parse_array_items n pf (acc @ [v]) (skip_ws r1)
               else None))"

definition loads :: "(pystr \<Rightarrow> 'f) \<Rightarrow> pystr \<Rightarrow> 'f json option" where
  "loads pf s =
     (if starts_with [0xFEFF] s then None
      else (case scan_once (2 * length s + 2) pf (skip_ws s) of
              None \<Rightarrow> None
            | Some (v, rest) \<Rightarrow> if skip_ws rest = [] then Some v else None))"

subsection \<open>connection.py: Message.serialize and the header of a frame\<close>

definition HEADER_LEN_BYTES :: nat where "HEADER_LEN_BYTES = 64"
definition CHUNK_SIZE_BYTES :: nat where "CHUNK_SIZE_BYTES = 2048"

definition serialize :: "('f \<Rightarrow> pystr) \<Rightarrow> 'f message \<Rightarrow> exn + pybytes" where
  "serialize fr m = utf8_encode (dumps fr (payload m))"

text \<open>The dict \<open>{'length': len(bytes_out), 'subject': _msg.subject}\<close>.\<close>

definition header_dict :: "nat \<Rightarrow> 'f json \<Rightarrow> 'f json" where
  "header_dict n subj = JObj [(ascii ''length'', JInt (int n)), (ascii ''subject'', subj)]"

definition ljust :: "pybytes \<Rightarrow> nat \<Rightarrow> nat \<Rightarrow> pybytes" where
  "ljust b width fill = b @ replicate (width - length b) fill"

text \<open>
  The \<open>try\<close> block of \<open>__send_queue_tick\<close> that builds the header (lines 156 to 161):
  the result is the padded header, or the exception raised inside the block.
\<close>

definition pack_header :: "('f \<Rightarrow> pystr) \<Rightarrow> nat \<Rightarrow> 'f json \<Rightarrow> exn + pybytes" where
  "pack_header fr n subj =
     (case utf8_encode (dumps fr (header_dict n subj)) of
        Inl e \<Rightarrow> Inl e
      | Inr header \<Rightarrow>
          if length header > HEADER_LEN_BYTES then Inl OverflowError
          else Inr (ljust header HEADER_LEN_BYTES 0))"

subsection \<open>connection.py: the header and the body of a received frame\<close>

text \<open>
  Lines 121 to 130 of \<open>__recv_queue_tick\<close>, applied to the 64 bytes read: decode as
  UTF-8, remove the null characters with \<open>replace\<close>, parse as JSON, read the entries
  \<open>length\<close> and \<open>subject\<close>. Any exception is caught: the step prints and returns
  \<open>True\<close>, the frame being dropped (\<open>Dropped\<close>). The handler prints the variable
  \<open>header\<close>, which is still unbound when the UTF-8 decoding is what failed: then
  \<open>UnboundLocalError\<close> escapes the step (\<open>Crashed\<close>).
\<close>

datatype 'f header_result = Header "'f json" "'f json" | Dropped | Crashed exn

definition parse_header :: "(pystr \<Rightarrow> 'f) \<Rightarrow> pybytes \<Rightarrow> 'f header_result" where
  "parse_header pf raw =
     (case utf8_decode raw of
        None \<Rightarrow> Crashed UnboundLocalError
      | Some text \<Rightarrow>
          (case loads pf (filter (\<lambda>c. c \<noteq> 0) text) of
             None \<Rightarrow> Dropped
           | Some header \<Rightarrow>
               (case getitem header (ascii ''length'') of
                  Inl e \<Rightarrow> Dropped
                | Inr msglen \<Rightarrow>
                    (case getitem header (ascii ''subject'') of
                       Inl e \<Rightarrow> Dropped
                     | Inr subj \<Rightarrow> Header msglen subj))))"


subsection \<open>connection.py: ConnectionHandler (state)\<close>

text \<open>
  One handler object: its socket (an identifier), the run flag, whether its I/O thread
  is alive, and the two queues (head of the list = left end of the deque).
\<close>

record 'f handler =
  sock :: nat
  should_run :: bool
  thread_alive :: bool
  outq :: "'f message list"
  inq :: "'f message list"

definition ConnectionHandler_init :: "nat \<Rightarrow> 'f handler" where
  "ConnectionHandler_init s =
     \<lparr> sock = s, should_run = False, thread_alive = False, outq = [], inq = [] \<rparr>"

definition running :: "('f, 'z) handler_scheme \<Rightarrow> bool" where
  "running h = thread_alive h"

definition start :: "('f, 'z) handler_scheme \<Rightarrow> ('f, 'z) handler_scheme" where
  "start h = h\<lparr> should_run := True, thread_alive := True \<rparr>"

text \<open>\<open>stop(blocking=False)\<close> only clears the flag; the thread ends later by itself.\<close>

definition stop_nonblocking :: "('f, 'z) handler_scheme \<Rightarrow> ('f, 'z) handler_scheme" where
  "stop_nonblocking h = h\<lparr> should_run := False \<rparr>"

definition send :: "'f message \<Rightarrow> ('f, 'z) handler_scheme \<Rightarrow> ('f, 'z) handler_scheme" where
  "send m h = h\<lparr> outq := outq h @ [m] \<rparr>"

text \<open>The \<open>sock\<close> property setter, with its guard.\<close>

definition set_sock ::
  "nat \<Rightarrow> ('f, 'z) handler_scheme \<Rightarrow> exn + ('f, 'z) handler_scheme" where
  "set_sock s h =
     (if should_run h \<or> running h then Inl AttributeError else Inr (h\<lparr> sock := s \<rparr>))"

subsection \<open>connection.py: the send step\<close>

text \<open>
  The socket seen from the sender. \<open>script i\<close> is what the \<open>i\<close>-th call of
  \<open>sock.send\<close> does: it accepts up to \<open>k\<close> of the bytes offered and returns how many
  (\<open>Sent 0\<close> is the zero return the code tests for), or it raises. \<open>wire\<close> collects the
  bytes accepted so far, \<open>calls\<close> counts the calls.
\<close>

datatype send_resp = Sent nat | SendRaises exn

record io =
  wire :: pybytes
  calls :: nat

datatype write_result = AllSent | ZeroSent | Raised exn

text \<open>
  The two \<open>while total < len(data)\<close> loops. The loop over the body wraps the call in
  \<open>try ... except: sent = 0\<close> (\<open>catch\<close>); the loop over the header does not.
\<close>

function write_all ::
  "bool \<Rightarrow> (nat \<Rightarrow> send_resp) \<Rightarrow> pybytes \<Rightarrow> nat \<Rightarrow> io \<Rightarrow> write_result \<times> io" where
  "write_all catch script data sent_total s =
     (if sent_total < length data
      then (case script (calls s) of
              SendRaises e \<Rightarrow>
                (if catch then ZeroSent else Raised e, s\<lparr> calls := Suc (calls s) \<rparr>)
            | Sent k \<Rightarrow>
                if min k (length data - sent_total) = 0
                then (ZeroSent, s\<lparr> calls := Suc (calls s) \<rparr>)
                else write_all catch script data (sent_total + min k (length data - sent_total))
                       (s\<lparr> calls := Suc (calls s),
                           wire := wire s @ take (min k (length data - sent_total)) (drop sent_total data) \<rparr>))
      else (AllSent, s))"
  by pat_completeness auto
termination
  by (relation "measure (\<lambda>(catch, script, data, sent_total, s). length data - sent_total)") auto

declare write_all.simps [simp del]

text \<open>
  \<open>__send_queue_tick\<close>. The result is the boolean returned, or the exception that
  escapes the step (from \<open>serialize\<close>, or from a write of the header).
\<close>

definition send_queue_tick ::
  "('f \<Rightarrow> pystr) \<Rightarrow> (nat \<Rightarrow> send_resp) \<Rightarrow> ('f, 'z) handler_scheme \<times> io
     \<Rightarrow> (exn + bool) \<times> ('f, 'z) handler_scheme \<times> io" where
  "send_queue_tick fr script hs =
     (case hs of (h, s) \<Rightarrow>
      (case outq h of
         [] \<Rightarrow> (Inr True, h, s)
       | msg # rest \<Rightarrow>
           let h1 = h\<lparr> outq := rest \<rparr> in
           (case serialize fr msg of
              Inl e \<Rightarrow> (Inl e, h1, s)
            | Inr bytes_out \<Rightarrow>
                (case pack_header fr (length bytes_out) (subject msg) of
                   Inl e \<Rightarrow> (Inr True, h1, s)
                 | Inr header \<Rightarrow>
                     (case write_all False script header 0 s of
                        (Raised e, s1) \<Rightarrow> (Inl e, h1, s1)
                      | (ZeroSent, s1) \<Rightarrow> (Inr False, h1\<lparr> outq := msg # outq h1 \<rparr>, s1)
                      | (AllSent, s1) \<Rightarrow>
                          (case write_all True script bytes_out 0 s1 of
                             (AllSent, s2) \<Rightarrow> (Inr True, h1, s2)
                           | (r, s2) \<Rightarrow> (Inr False, h1\<lparr> outq := msg # outq h1 \<rparr>, s2)))))))"

text \<open>
  The send steps of \<open>__main_loop\<close>, at most \<open>n\<close> of them: the loop goes on after a step
  that returned \<open>True\<close> and ends with the first step that returns \<open>False\<close> or raises.
\<close>

fun send_ticks ::
  "nat \<Rightarrow> ('f \<Rightarrow> pystr) \<Rightarrow> (nat \<Rightarrow> send_resp) \<Rightarrow> ('f, 'z) handler_scheme \<times> io
     \<Rightarrow> (exn + bool) \<times> ('f, 'z) handler_scheme \<times> io" where
  "send_ticks 0 fr script hs = (Inr True, hs)"
| "send_ticks (Suc n) fr script hs =
     (case send_queue_tick fr script hs of
        (Inr True, hs') \<Rightarrow> send_ticks n fr script hs'
      | r \<Rightarrow> r)"

section \<open>client.py\<close>

subsection \<open>ClientState\<close>

definition STATE_UNDEFINED :: int where "STATE_UNDEFINED = 0x0000"
definition STATE_NEEDS_INIT :: int where "STATE_NEEDS_INIT = 0x0001"
definition STATE_OK :: int where "STATE_OK = 0x0002"
definition STATE_RUNNING :: int where "STATE_RUNNING = 0x0004"
definition STATE_NOT_CONNECTED :: int where "STATE_NOT_CONNECTED = 0x0008"
definition STATE_CONNECTING :: int where "STATE_CONNECTING = 0x0010"
definition STATE_CONNECTED :: int where "STATE_CONNECTED = 0x0020"
definition STATE_CONNECT_FAILED :: int where "STATE_CONNECT_FAILED = 0x0040"
definition STATE_RECONNECTING :: int where "STATE_RECONNECTING = 0x0080"
definition STATE_RECONNECT_FAILED :: int where "STATE_RECONNECT_FAILED = 0x0100"
definition STATE_DISCONNECTING :: int where "STATE_DISCONNECTING = 0x0200"
definition STATE_DISCONNECT_FAILED :: int where "STATE_DISCONNECT_FAILED = 0x0400"
definition STATE_UNEXP_CLOSED :: int where "STATE_UNEXP_CLOSED = 0x0800"

lemmas state_defs =
  STATE_UNDEFINED_def STATE_NEEDS_INIT_def STATE_OK_def STATE_RUNNING_def
  STATE_NOT_CONNECTED_def STATE_CONNECTING_def STATE_CONNECTED_def
  STATE_CONNECT_FAILED_def STATE_RECONNECTING_def STATE_RECONNECT_FAILED_def
  STATE_DISCONNECTING_def STATE_DISCONNECT_FAILED_def STATE_UNEXP_CLOSED_def

subsection \<open>Client\<close>

text \<open>
  Events handed to \<open>__trigger\<close>, in the order they are fired. Every callback runs on a
  thread of its own, so the model records the event and not what the callbacks do.
\<close>

datatype 'f event =
    EvStateChange int int
  | EvConnect "pystr option"
  | EvReconnect "pystr option"
  | EvDisconnect
  | EvServerShutdown
  | EvMessage "'f message"

record 'f client =
  attempt_reconnect :: bool
  c_client_id :: "pystr option"
  c_address :: "pystr option"
  c_port :: "int option"
  c_interface :: "pystr option"
  c_bind_port :: "int option"
  conn :: "'f handler option"
  state :: int
  events :: "'f event list"
  recv_consumer_should_run :: bool
  recv_consumer_started :: bool

definition Client_init :: "bool \<Rightarrow> 'f client" where
  "Client_init rec =
     \<lparr> attempt_reconnect = rec, c_client_id = None, c_address = None, c_port = None,
       c_interface = None, c_bind_port = None, conn = None,
       state = STATE_NEEDS_INIT OR STATE_NOT_CONNECTED, events = [],
       recv_consumer_should_run = False, recv_consumer_started = False \<rparr>"

definition trigger :: "'f event \<Rightarrow> 'f client \<Rightarrow> 'f client" where
  "trigger e c = c\<lparr> events := events c @ [e] \<rparr>"

definition set_state :: "int \<Rightarrow> 'f client \<Rightarrow> 'f client" where
  "set_state s c =
     (if state c = s then c
      else trigger (EvStateChange (state c) s) (c\<lparr> state := s \<rparr>))"

definition check_inited :: "'f client \<Rightarrow> 'f client" where
  "check_inited c =
     (if c_address c \<noteq> None \<and> c_port c \<noteq> None \<and> c_client_id c \<noteq> None
      then set_state (state c AND NOT STATE_NEEDS_INIT) c
      else set_state (state c OR STATE_NEEDS_INIT) c)"

text \<open>Property setters: each refuses while \<open>STATE_RUNNING\<close> is set.\<close>

definition set_address :: "pystr option \<Rightarrow> 'f client \<Rightarrow> exn + 'f client" where
  "set_address a c =
     (if state c AND STATE_RUNNING \<noteq> 0 then Inl PyException
      else Inr (check_inited (c\<lparr> c_address := a \<rparr>)))"

definition set_client_id :: "pystr option \<Rightarrow> 'f client \<Rightarrow> exn + 'f client" where
  "set_client_id i c =
     (if state c AND STATE_RUNNING \<noteq> 0 then Inl PyException
      else Inr (check_inited (c\<lparr> c_client_id := i \<rparr>)))"

text \<open>The port setter, for an argument that already is an integer (\<open>int(port)\<close> succeeds).\<close>

definition set_port :: "int \<Rightarrow> 'f client \<Rightarrow> exn + 'f client" where
  "set_port p c =
     (if state c AND STATE_RUNNING \<noteq> 0 then Inl PyException
      else Inr (check_inited (c\<lparr> c_port := Some p \<rparr>)))"

text \<open>The property getters. The getter of \<open>client_id\<close> returns \<open>self.__address\<close>.\<close>

definition address :: "'f client \<Rightarrow> pystr option" where
  "address c = c_address c"

definition client_id :: "'f client \<Rightarrow> pystr option" where
  "client_id c = c_address c"

text \<open>
  What the socket and the handler do during one \<open>connect()\<close> or \<open>__reconnect()\<close>: the
  socket the fresh handler creates and, for each of the four calls, the exception it
  raises (or none).
\<close>

record connect_env =
  new_sock :: nat
  bind_raises :: "exn option"
  connect_raises :: "exn option"
  start_raises :: "exn option"
  send_raises :: "exn option"

text \<open>The exception raised by the optional bind step (none when the step is skipped).\<close>

definition bind_exn :: "connect_env \<Rightarrow> 'f client \<Rightarrow> exn option" where
  "bind_exn env c =
     (if c_bind_port c \<noteq> None \<and> c_interface c \<noteq> None then bind_raises env else None)"

definition negotiation_msg :: "pystr option \<Rightarrow> 'f message" where
  "negotiation_msg i =
     Message (JStr (ascii ''negotiation''))
       (JObj [(ascii ''id'', case i of None \<Rightarrow> JNull | Some s \<Rightarrow> JStr s)])"

definition fail_connect :: "bool \<Rightarrow> 'f client \<Rightarrow> (exn + bool) \<times> 'f client" where
  "fail_connect unexpected c =
     (Inr False,
      (set_state ((STATE_UNEXP_CLOSED * (if unexpected then 1 else 0))
                    OR STATE_CONNECT_FAILED OR STATE_NOT_CONNECTED) c)
        \<lparr> conn := None \<rparr>)"

definition map_conn :: "('f handler \<Rightarrow> 'f handler) \<Rightarrow> 'f client \<Rightarrow> 'f client" where
  "map_conn f c = c\<lparr> conn := map_option f (conn c) \<rparr>"

definition connect :: "connect_env \<Rightarrow> 'f client \<Rightarrow> (exn + bool) \<times> 'f client" where
  "connect env c =
     (if c_address c = None then (Inl AttributeError, c)
      else if c_port c = None then (Inl AttributeError, c)
      else if c_client_id c = None then (Inl AttributeError, c)
      else if state c AND STATE_NEEDS_INIT \<noteq> 0 then (Inr False, c)
      else if state c AND STATE_NOT_CONNECTED = 0 then (Inr False, c)
      else
        let c1 = set_state (STATE_OK OR STATE_CONNECTING) c;
            c2 = c1\<lparr> conn := Some (ConnectionHandler_init (new_sock env)) \<rparr>;
            bind = bind_exn env c2
        in if bind = Some SocketTimeout then fail_connect True c2
           else if bind \<noteq> None then fail_connect False c2
           else if connect_raises env = Some SocketTimeout then fail_connect True c2
           else if connect_raises env \<noteq> None
                   \<and> connect_raises env \<noteq> Some ConnectionRefusedError
                then fail_connect False c2
           else if start_raises env \<noteq> None then fail_connect False c2
           else
             let c3 = map_conn start c2 in
             if send_raises env = Some SocketTimeout then fail_connect True c3
             else if send_raises env \<noteq> None then fail_connect False c3
             else
               let c4 = map_conn (send (negotiation_msg (c_client_id c3))) c3;
                   c5 = set_state (STATE_OK OR STATE_CONNECTED) c4;
                   c6 = c5\<lparr> recv_consumer_should_run := True,
                             recv_consumer_started := True \<rparr>
               in (Inr True, trigger (EvConnect (c_client_id c6)) c6))"

text \<open>\<open>__reconnect\<close>: the same cycle, every failure (a refusal too) returning \<open>False\<close>.\<close>

definition reconnect :: "connect_env \<Rightarrow> 'f client \<Rightarrow> bool \<times> 'f client" where
  "reconnect env c =
     (let c2 = c\<lparr> conn := Some (ConnectionHandler_init (new_sock env)) \<rparr>;
          bind = bind_exn env c2
      in if bind \<noteq> None then (False, c2)
         else if connect_raises env \<noteq> None then (False, c2)
         else if start_raises env \<noteq> None then (False, c2)
         else
           let c3 = map_conn start c2 in
           if send_raises env \<noteq> None then (False, c3)
           else
             (True, (map_conn (send (negotiation_msg (c_client_id c3))) c3)
                      \<lparr> recv_consumer_should_run := True \<rparr>))"

text \<open>
  \<open>__reconnect_wrapper\<close>. Each pass of its \<open>while rec_again\<close> loop is given by the
  environment: whether \<open>attempt_reconnect\<close> is cleared by another thread during the wait,
  and what the sockets do in the attempt. The loop state carries \<open>sleeptime\<close>; the
  trace lists the \<open>sleeptime\<close> announced and waited for in each pass. Python computes
  with the double nearest to \<open>0.1\<close>; doubling is exact there, and the model uses the
  rational \<open>1/10\<close>.
\<close>

datatype wrapper_result = Returned bool | StillTrying

fun reconnect_loop ::
  "rat \<Rightarrow> (bool \<times> connect_env) list \<Rightarrow> 'f client \<Rightarrow> wrapper_result \<times> rat list \<times> 'f client"
where
  "reconnect_loop sleeptime [] c = (StillTrying, [], c)"
| "reconnect_loop sleeptime ((cleared, env) # rest) c =
     (if cleared
      then (Returned False, [sleeptime],
            set_state (STATE_RECONNECT_FAILED OR STATE_NOT_CONNECTED)
              (c\<lparr> attempt_reconnect := False \<rparr>))
      else
        let sleeptime' = min (sleeptime * 2) 15;
            (ok, c') = reconnect env c
        in if ok
           then (Returned True, [sleeptime],
                 trigger (EvReconnect (c_client_id c'))
                   (set_state (STATE_OK OR STATE_CONNECTED) c'))
           else (case reconnect_loop sleeptime' rest c' of
                   (r, waits, c'') \<Rightarrow> (r, sleeptime # waits, c'')))"

definition reconnect_wrapper ::
  "(bool \<times> connect_env) list \<Rightarrow> 'f client \<Rightarrow> wrapper_result \<times> rat list \<times> 'f client"
where
  "reconnect_wrapper passes c =
     (if \<not> attempt_reconnect c then (Returned False, [], c)
      else reconnect_loop (1/10) passes
             (set_state (STATE_RECONNECTING OR STATE_CONNECTING OR STATE_OK) c))"

section \<open>server.py\<close>

subsection \<open>ClientHandler\<close>

record 'f client_handler = "'f handler" +
  addr :: nat
  ch_client_id :: "'f json option"

text \<open>
  \<open>ClientHandler.__init__\<close>. The socket is stored through the setter (the fresh handler
  is not running, so the guard passes), the I/O loop is started, and \<open>first\<close> is what
  \<open>wait_for_recv(timeout=5.0)\<close> returns: the first message received within the
  deadline, or none. Every exception of the check is swallowed by the bare \<open>except\<close>.
\<close>

definition negotiated_id :: "('f \<Rightarrow> bool) \<Rightarrow> 'f message option \<Rightarrow> 'f json option" where
  "negotiated_id fb first =
     (case first of
        None \<Rightarrow> None
      | Some msg \<Rightarrow>
          if subject msg = JStr (ascii ''negotiation'')
          then (case getitem (payload msg) (ascii ''id'') of
                  Inl e \<Rightarrow> None
                | Inr i \<Rightarrow> if truthy fb i then Some i else None)
          else None)"

definition ClientHandler_init ::
  "('f \<Rightarrow> bool) \<Rightarrow> nat \<Rightarrow> nat \<Rightarrow> 'f message option \<Rightarrow> 'f client_handler" where
  "ClientHandler_init fb client_sock client_addr first =
     start \<lparr> sock = client_sock, should_run = False, thread_alive = False,
             outq = [], inq = [], addr = client_addr, ch_client_id = None \<rparr>
       \<lparr> ch_client_id := negotiated_id fb first \<rparr>"

text \<open>
  \<open>reopen_with\<close>: the address is stored first, then the socket goes through the guarded
  setter, then the loop is restarted. When the setter raises, the address is already
  changed and nothing else is.
\<close>

definition reopen_with ::
  "nat \<Rightarrow> nat \<Rightarrow> 'f client_handler \<Rightarrow> exn option \<times> 'f client_handler" where
  "reopen_with s a h =
     (let h1 = h\<lparr> addr := a \<rparr> in
      case set_sock s h1 of
        Inl e \<Rightarrow> (Some e, h1)
      | Inr h2 \<Rightarrow> (None, start h2))"

subsection \<open>Server\<close>

text \<open>
  The directory \<open>__conns\<close> is a Python dict: an insertion-ordered list of entries with
  distinct keys, each bound to a handler object. Objects live in \<open>handlers\<close>, indexed
  by reference; \<open>next_ref\<close> is the next unused reference. Keys are compared with HOL
  equality, which is Python's \<open>==\<close> on strings.
\<close>

record 'f server =
  conns :: "('f json \<times> nat) list"
  handlers :: "nat \<Rightarrow> 'f client_handler"
  next_ref :: nat

definition update_handler ::
  "nat \<Rightarrow> 'f client_handler \<Rightarrow> 'f server \<Rightarrow> 'f server" where
  "update_handler r h srv = srv\<lparr> handlers := (handlers srv)(r := h) \<rparr>"

text \<open>
  \<open>__negotiate_client_id\<close>. The result is the exception that escapes, if any; the
  accept loop catches none but \<open>socket.timeout\<close>.
\<close>

definition negotiate_client_id ::
  "('f \<Rightarrow> bool) \<Rightarrow> nat \<Rightarrow> nat \<Rightarrow> 'f message option \<Rightarrow> 'f server \<Rightarrow> exn option \<times> 'f server"
where
  "negotiate_client_id fb client_sock client_addr first srv =
     (let r = next_ref srv;
          client = ClientHandler_init fb client_sock client_addr first;
          srv1 = (update_handler r client srv)\<lparr> next_ref := Suc r \<rparr>
      in case ch_client_id client of
           None \<Rightarrow> (None, update_handler r (stop_nonblocking client) srv1)
         | Some cid \<Rightarrow>
             if \<not> hashable cid then (Some TypeError, srv1)
             else (case map_of (conns srv1) cid of
                     Some r0 \<Rightarrow>
                       let srv2 = update_handler r (stop_nonblocking client) srv1;
                           (e, h) = reopen_with client_sock client_addr (handlers srv2 r0)
                       in (e, update_handler r0 h srv2)
                   | None \<Rightarrow> (None, srv1\<lparr> conns := conns srv1 @ [(cid, r)] \<rparr>)))"

section \<open>Properties of the client\<close>

subsection \<open>Reconnect backoff\<close>

definition waits_of :: "wrapper_result \<times> rat list \<times> 'f client \<Rightarrow> rat list" where
  "waits_of r = fst (snd r)"

lemma backoff_step: "0 \<le> s \<Longrightarrow> min (min (s * 2) 15 * 2 ^ k) 15 = min (s * 2 ^ Suc k) (15::rat)"
proof (cases "s * 2 \<le> 15")
  case True
  then show ?thesis by (simp add: mult.assoc)
next
  case False
  have k: "(1::rat) \<le> 2 ^ k" by simp
  from False have a: "15 < s * 2" by simp
  have "15 * 1 \<le> (15::rat) * 2 ^ k" using k by (intro mult_left_mono) auto
  moreover have "min (s * 2) 15 = 15" using a by simp
  ultimately have l: "min (min (s * 2) 15 * 2 ^ k) 15 = 15" by simp
  have "s * 2 * 1 \<le> s * 2 * 2 ^ k" using k a by (intro mult_left_mono) auto
  then have "15 \<le> s * 2 * 2 ^ k" using a by linarith
  moreover have "s * 2 ^ Suc k = s * 2 * 2 ^ k" by simp
  ultimately have "15 \<le> s * 2 ^ Suc k" by (simp only:)
  then have r: "min (s * 2 ^ Suc k) 15 = 15" by (simp del: power_Suc)
  show ?thesis using l r by simp
qed

lemma reconnect_loop_waits:
  "0 \<le> s \<Longrightarrow> s \<le> 15 \<Longrightarrow> k < length (waits_of (reconnect_loop s passes c)) \<Longrightarrow>
   waits_of (reconnect_loop s passes c) ! k = min (s * 2 ^ k) 15"
proof (induction passes arbitrary: s c k)
  case Nil
  then show ?case by (simp add: waits_of_def)
next
  case (Cons p passes)
  obtain cleared env where p: "p = (cleared, env)" by (cases p)
  obtain ok c' where rc: "reconnect env c = (ok, c')" by (cases "reconnect env c")
  show ?case
  proof (cases "cleared \<or> ok")
    case True
    then have "waits_of (reconnect_loop s (p # passes) c) = [s]"
      using p rc by (auto simp: waits_of_def Let_def)
    with Cons.prems show ?thesis by simp
  next
    case False
    let ?s' = "min (s * 2) 15"
    have w: "waits_of (reconnect_loop s (p # passes) c) = s # waits_of (reconnect_loop ?s' passes c')"
      using False p rc by (simp add: waits_of_def split: prod.splits)
    show ?thesis
    proof (cases k)
      case 0
      with w Cons.prems show ?thesis by simp
    next
      case (Suc j)
      with w Cons.prems have j: "j < length (waits_of (reconnect_loop ?s' passes c'))" by simp
      have "waits_of (reconnect_loop ?s' passes c') ! j = min (?s' * 2 ^ j) 15"
        using Cons.prems by (intro Cons.IH[OF _ _ j]) auto
      with w Suc Cons.prems(1) show ?thesis by (simp add: backoff_step del: power_Suc)
    qed
  qed
qed

lemma reconnect_fails: "connect_raises env \<noteq> None \<Longrightarrow> fst (reconnect env c) = False"
  by (simp add: reconnect_def Let_def)

lemma reconnect_attempt_flag: "attempt_reconnect (snd (reconnect env c)) = attempt_reconnect c"
  by (simp add: reconnect_def Let_def map_conn_def)

lemma reconnect_loop_length:
  "\<forall>p\<in>set failed. \<not> fst p \<and> connect_raises (snd p) \<noteq> None \<Longrightarrow>
   length (waits_of (reconnect_loop s (failed @ [p]) c)) = Suc (length failed)"
proof (induction failed arbitrary: s c)
  case Nil
  obtain cleared env where p: "p = (cleared, env)" by (cases p)
  show ?case by (simp add: p waits_of_def Let_def split: prod.splits)
next
  case (Cons q failed)
  obtain env where q: "q = (False, env)" and e: "connect_raises env \<noteq> None"
    using Cons.prems by (cases q) auto
  obtain c' where rc: "reconnect env c = (False, c')"
    using reconnect_fails[OF e, of c] by (cases "reconnect env c") auto
  have "waits_of (reconnect_loop s ((q # failed) @ [p]) c)
        = s # waits_of (reconnect_loop (min (s * 2) 15) (failed @ [p]) c')"
    using q rc by (simp add: waits_of_def split: prod.splits)
  then show ?case using Cons by simp
qed

text \<open>
  Claim C7. In every run of \<open>__reconnect_wrapper\<close>, the wait announced in pass \<open>N + 1\<close>
  (index \<open>N\<close> of the trace) is \<open>min (0.1 * 2^N) 15\<close> seconds: it starts at \<open>0.1\<close> and
  doubles after each attempt, capped at \<open>15\<close>. And after \<open>N\<close> failed attempts that were
  not cancelled, pass \<open>N + 1\<close> does take place, so the trace has \<open>N + 1\<close> entries.
\<close>

theorem reconnect_backoff:
  "(\<forall>N < length (waits_of (reconnect_wrapper passes c)).
       waits_of (reconnect_wrapper passes c) ! N = min (1/10 * 2 ^ N) 15) \<and>
   (attempt_reconnect c \<and> (\<forall>p\<in>set failed. \<not> fst p \<and> connect_raises (snd p) \<noteq> None)
      \<longrightarrow> length (waits_of (reconnect_wrapper (failed @ [p]) c)) = Suc (length failed))"
proof (intro conjI allI impI)
  fix N assume "N < length (waits_of (reconnect_wrapper passes c))"
  then show "waits_of (reconnect_wrapper passes c) ! N = min (1/10 * 2 ^ N) 15"
    using reconnect_loop_waits[of "1/10" N passes]
    by (auto simp: reconnect_wrapper_def waits_of_def split: if_splits)
next
  assume "attempt_reconnect c \<and> (\<forall>p\<in>set failed. \<not> fst p \<and> connect_raises (snd p) \<noteq> None)"
  then show "length (waits_of (reconnect_wrapper (failed @ [p]) c)) = Suc (length failed)"
    using reconnect_loop_length[of failed "1/10" p]
    by (simp add: reconnect_wrapper_def)
qed

definition refused_env :: connect_env where
  "refused_env = \<lparr> new_sock = 0, bind_raises = None, connect_raises = Some ConnectionRefusedError,
     start_raises = None, send_raises = None \<rparr>"

theorem reconnect_backoff_witness:
  "attempt_reconnect (Client_init True :: unit client) \<and>
   waits_of (reconnect_wrapper (replicate 8 (False, refused_env) @ [(False, refused_env)])
      (Client_init True :: unit client)) ! 7 = 64 / 5 \<and>
   waits_of (reconnect_wrapper (replicate 8 (False, refused_env) @ [(False, refused_env)])
      (Client_init True :: unit client)) ! 8 = 15"
proof -
  let ?c = "Client_init True :: unit client"
  let ?f = "replicate 8 (False, refused_env)"
  let ?p = "(False, refused_env)"
  have a: "attempt_reconnect ?c" by (simp add: Client_init_def)
  have b: "\<forall>p\<in>set ?f. \<not> fst p \<and> connect_raises (snd p) \<noteq> None"
    by (simp add: refused_env_def)
  note t = reconnect_backoff[of "?f @ [?p]" ?c ?f ?p]
  from t a b have len: "length (waits_of (reconnect_wrapper (?f @ [?p]) ?c)) = 9" by simp
  from t len have "waits_of (reconnect_wrapper (?f @ [?p]) ?c) ! 7 = min (1/10 * 2 ^ 7) 15"
    and "waits_of (reconnect_wrapper (?f @ [?p]) ?c) ! 8 = min (1/10 * 2 ^ 8) 15" by simp_all
  then show ?thesis using a by simp
qed

subsection \<open>Preconditions of connect\<close>

definition connect_ready :: "'f client \<Rightarrow> bool" where
  "connect_ready c =
     (c_address c \<noteq> None \<and> c_port c \<noteq> None \<and> c_client_id c \<noteq> None \<and>
      state c AND STATE_NEEDS_INIT = 0 \<and> state c AND STATE_NOT_CONNECTED \<noteq> 0)"

lemma state_set_state [simp]: "state (set_state s c) = s"
  by (simp add: set_state_def trigger_def)

lemma conn_set_state [simp]: "conn (set_state s c) = conn c"
  by (simp add: set_state_def trigger_def)

lemma fields_set_state [simp]:
  "c_address (set_state s c) = c_address c" "c_port (set_state s c) = c_port c"
  "c_client_id (set_state s c) = c_client_id c" "c_interface (set_state s c) = c_interface c"
  "c_bind_port (set_state s c) = c_bind_port c"
  by (simp_all add: set_state_def trigger_def)

lemma fields_trigger [simp]:
  "c_address (trigger e c) = c_address c" "c_client_id (trigger e c) = c_client_id c"
  "conn (trigger e c) = conn c" "state (trigger e c) = state c"
  by (simp_all add: trigger_def)

text \<open>
  Claim C3, as amended. With address, port or client id unset, \<open>connect()\<close> raises
  \<open>AttributeError\<close>; with all three set but \<open>needs-init\<close> set or \<open>not-connected\<close> clear,
  it returns \<open>False\<close>. In both cases the client is left exactly as it was: no handler
  is constructed, the status is unchanged and no event is fired.
\<close>

theorem connect_precondition_violations:
  "(c_address c = None \<or> c_port c = None \<or> c_client_id c = None
      \<longrightarrow> connect env c = (Inl AttributeError, c)) \<and>
   (c_address c \<noteq> None \<and> c_port c \<noteq> None \<and> c_client_id c \<noteq> None \<and>
    (state c AND STATE_NEEDS_INIT \<noteq> 0 \<or> state c AND STATE_NOT_CONNECTED = 0)
      \<longrightarrow> connect env c = (Inr False, c))"
  by (auto simp: connect_def)

definition ok_env :: connect_env where
  "ok_env = \<lparr> new_sock = 0, bind_raises = None, connect_raises = None,
     start_raises = None, send_raises = None \<rparr>"

definition ready_client :: "unit client" where
  "ready_client =
     \<lparr> attempt_reconnect = True, c_client_id = Some (ascii ''abc123''),
       c_address = Some (ascii ''127.0.0.1''), c_port = Some 30000,
       c_interface = None, c_bind_port = None, conn = None,
       state = STATE_NOT_CONNECTED, events = [],
       recv_consumer_should_run = False, recv_consumer_started = False \<rparr>"

text \<open>
  Claim C3 as stated fails: on a fresh client (address unset, \<open>needs-init\<close> set)
  \<open>connect()\<close> raises \<open>AttributeError\<close> instead of returning \<open>False\<close>.
\<close>

theorem connect_unset_raises:
  "c_address (Client_init True :: unit client) = None \<and>
   connect ok_env (Client_init True :: unit client) = (Inl AttributeError, Client_init True)"
  by (simp add: connect_def Client_init_def)

theorem connect_precondition_violations_witness:
  "c_address (Client_init True :: unit client) = None \<and>
   connect ok_env (Client_init True :: unit client) = (Inl AttributeError, Client_init True) \<and>
   state (ready_client\<lparr> state := STATE_OK OR STATE_CONNECTED \<rparr>) AND STATE_NOT_CONNECTED = 0 \<and>
   connect ok_env (ready_client\<lparr> state := STATE_OK OR STATE_CONNECTED \<rparr>)
     = (Inr False, ready_client\<lparr> state := STATE_OK OR STATE_CONNECTED \<rparr>)"
proof -
  let ?c = "ready_client\<lparr> state := STATE_OK OR STATE_CONNECTED \<rparr>"
  have a: "c_address (Client_init True :: unit client) = None" by (simp add: Client_init_def)
  have b: "c_address ?c \<noteq> None \<and> c_port ?c \<noteq> None \<and> c_client_id ?c \<noteq> None"
    by (simp add: ready_client_def)
  have c: "state ?c AND STATE_NOT_CONNECTED = 0" by (simp add: state_defs)
  show ?thesis
    using connect_precondition_violations[of "Client_init True :: unit client" ok_env]
      connect_precondition_violations[of ?c ok_env] a b c
    by simp
qed

subsection \<open>Failures during connect\<close>

text \<open>
  Which environments make \<open>connect()\<close> fail, and which of them count as a timeout. A
  refused connection is not among the failures: its handler only logs a warning.
\<close>

definition connect_fails :: "connect_env \<Rightarrow> 'f client \<Rightarrow> bool" where
  "connect_fails env c =
     (bind_exn env c \<noteq> None \<or>
      (connect_raises env \<noteq> None \<and> connect_raises env \<noteq> Some ConnectionRefusedError) \<or>
      start_raises env \<noteq> None \<or> send_raises env \<noteq> None)"


lemma bitor_unexp0: "(STATE_UNEXP_CLOSED * 0) OR STATE_CONNECT_FAILED OR STATE_NOT_CONNECTED
   = STATE_CONNECT_FAILED OR STATE_NOT_CONNECTED"
  by (simp add: state_defs)

lemma fail_connect_simps [simp]:
  "fst (fail_connect u c) = Inr False"
  "conn (snd (fail_connect u c)) = None"
  "state (snd (fail_connect u c)) =
     (if u then STATE_UNEXP_CLOSED OR STATE_CONNECT_FAILED OR STATE_NOT_CONNECTED
      else STATE_CONNECT_FAILED OR STATE_NOT_CONNECTED)"
  by (simp_all add: fail_connect_def bitor_unexp0)

lemma bind_exn_simps [simp]:
  "bind_exn env (set_state s c) = bind_exn env c"
  "bind_exn env (c\<lparr> conn := h \<rparr>) = bind_exn env c"
  by (simp_all add: bind_exn_def)

text \<open>Past its precondition checks, connect is a cascade over the four calls.\<close>

definition connect_attempt :: "connect_env \<Rightarrow> 'f client \<Rightarrow> (exn + bool) \<times> 'f client" where
  "connect_attempt env c2 =
     (if bind_exn env c2 = Some SocketTimeout then fail_connect True c2
      else if bind_exn env c2 \<noteq> None then fail_connect False c2
      else if connect_raises env = Some SocketTimeout then fail_connect True c2
      else if connect_raises env \<noteq> None \<and> connect_raises env \<noteq> Some ConnectionRefusedError
           then fail_connect False c2
      else if start_raises env \<noteq> None then fail_connect False c2
      else if send_raises env = Some SocketTimeout then fail_connect True (map_conn start c2)
      else if send_raises env \<noteq> None then fail_connect False (map_conn start c2)
      else (Inr True,
            trigger (EvConnect (c_client_id c2))
              ((set_state (STATE_OK OR STATE_CONNECTED)
                 (map_conn (send (negotiation_msg (c_client_id c2))) (map_conn start c2)))
               \<lparr> recv_consumer_should_run := True, recv_consumer_started := True \<rparr>)))"

lemma connect_ready_unfold:
  "connect_ready c \<Longrightarrow>
   connect env c = connect_attempt env
     ((set_state (STATE_OK OR STATE_CONNECTING) c)
        \<lparr> conn := Some (ConnectionHandler_init (new_sock env)) \<rparr>)"
proof -
  assume "connect_ready c"
  then obtain a p i where "c_address c = Some a" "c_port c = Some p" "c_client_id c = Some i"
    "state c AND STATE_NEEDS_INIT = 0" "state c AND STATE_NOT_CONNECTED \<noteq> 0"
    by (auto simp: connect_ready_def)
  then show ?thesis
    by (simp add: connect_def connect_attempt_def Let_def map_conn_def)
qed


lemma connect_attempt_succeeds:
  assumes "\<not> connect_fails env c2" and "conn c2 = Some (ConnectionHandler_init s)"
  shows "fst (connect_attempt env c2) = Inr True \<and>
         state (snd (connect_attempt env c2)) = STATE_OK OR STATE_CONNECTED \<and>
         map_option outq (conn (snd (connect_attempt env c2)))
           = Some [negotiation_msg (c_client_id c2)]"
proof -
  from assms(1) have b: "bind_exn env c2 = None" and st: "start_raises env = None"
    and se: "send_raises env = None"
    and cr: "\<not> (connect_raises env \<noteq> None \<and> connect_raises env \<noteq> Some ConnectionRefusedError)"
    by (auto simp: connect_fails_def)
  from cr have nt: "connect_raises env \<noteq> Some SocketTimeout" by auto
  show ?thesis
    using b st se cr nt assms(2)
    by (simp add: connect_attempt_def map_conn_def start_def send_def ConnectionHandler_init_def)
qed






subsection \<open>The client_id property\<close>

lemma needs_init_bits:
  "(s AND NOT STATE_NEEDS_INIT) AND STATE_RUNNING = s AND STATE_RUNNING"
  "(s OR STATE_NEEDS_INIT) AND STATE_RUNNING = s AND STATE_RUNNING"
  "(s AND NOT STATE_NEEDS_INIT) AND STATE_NOT_CONNECTED = s AND STATE_NOT_CONNECTED"
  "(s OR STATE_NEEDS_INIT) AND STATE_NOT_CONNECTED = s AND STATE_NOT_CONNECTED"
  "(s AND NOT STATE_NEEDS_INIT) AND STATE_NEEDS_INIT = 0"
  by (simp_all add: state_defs and.assoc bit.conj_disj_distrib2)

lemma check_inited_fields [simp]:
  "c_address (check_inited c) = c_address c" "c_port (check_inited c) = c_port c"
  "c_client_id (check_inited c) = c_client_id c"
  by (simp_all add: check_inited_def)

lemma check_inited_state:
  "state (check_inited c) =
     (if c_address c \<noteq> None \<and> c_port c \<noteq> None \<and> c_client_id c \<noteq> None
      then state c AND NOT STATE_NEEDS_INIT else state c OR STATE_NEEDS_INIT)"
  by (simp add: check_inited_def)

lemma check_inited_running:
  "state (check_inited c) AND STATE_RUNNING = state c AND STATE_RUNNING"
  by (simp add: check_inited_state needs_init_bits)

lemma check_inited_not_connected:
  "state (check_inited c) AND STATE_NOT_CONNECTED = state c AND STATE_NOT_CONNECTED"
  by (simp add: check_inited_state needs_init_bits)

lemma connect_attempt_address:
  "c_address (snd (connect_attempt env c)) = c_address c"
  by (simp add: connect_attempt_def fail_connect_def map_conn_def)

text \<open>
  Claim C9. The \<open>client_id\<close> property reads the address field. After setting the address
  to \<open>a\<close> and the client id to \<open>i\<close> on a client that is not running, the property gives
  \<open>a\<close>, while the stored id is \<open>i\<close>; and a \<open>connect()\<close> that does not fail queues the
  negotiation message carrying \<open>i\<close>, the property still giving \<open>a\<close>.
\<close>

theorem client_id_reads_address:
  "client_id c = address c \<and>
   (state c AND STATE_RUNNING = 0 \<longrightarrow>
     (\<exists>c1 c2. set_address (Some a) c = Inr c1 \<and> set_client_id (Some i) c1 = Inr c2 \<and>
        client_id c2 = Some a \<and> c_client_id c2 = Some i \<and>
        (c_port c \<noteq> None \<and> state c AND STATE_NOT_CONNECTED \<noteq> 0 \<and> \<not> connect_fails env c2 \<longrightarrow>
           (\<exists>c3. connect env c2 = (Inr True, c3) \<and> client_id c3 = Some a \<and>
              map_option outq (conn c3) = Some [negotiation_msg (Some i)]))))"
proof (intro conjI impI)
  show "client_id c = address c" by (simp add: client_id_def address_def)
next
  assume nr: "state c AND STATE_RUNNING = 0"
  let ?c1 = "check_inited (c\<lparr> c_address := Some a \<rparr>)"
  let ?c2 = "check_inited (?c1\<lparr> c_client_id := Some i \<rparr>)"
  have s1: "set_address (Some a) c = Inr ?c1" using nr by (simp add: set_address_def)
  have r1: "state ?c1 AND STATE_RUNNING = 0" using nr by (simp add: check_inited_running)
  have s2: "set_client_id (Some i) ?c1 = Inr ?c2" using r1 by (simp add: set_client_id_def)
  have g: "client_id ?c2 = Some a" "c_client_id ?c2 = Some i" by (simp_all add: client_id_def)
  have conn: "c_port c \<noteq> None \<and> state c AND STATE_NOT_CONNECTED \<noteq> 0 \<and> \<not> connect_fails env ?c2 \<longrightarrow>
           (\<exists>c3. connect env ?c2 = (Inr True, c3) \<and> client_id c3 = Some a \<and>
              map_option outq (conn c3) = Some [negotiation_msg (Some i)])"
  proof
    assume h: "c_port c \<noteq> None \<and> state c AND STATE_NOT_CONNECTED \<noteq> 0 \<and> \<not> connect_fails env ?c2"
    have nc: "state ?c2 AND STATE_NOT_CONNECTED \<noteq> 0"
      using h by (simp add: check_inited_not_connected)
    have ni: "state ?c2 AND STATE_NEEDS_INIT = 0"
      using h by (simp add: check_inited_state[of "?c1\<lparr> c_client_id := Some i \<rparr>"] needs_init_bits)
    have rdy: "connect_ready ?c2" using h nc ni by (simp add: connect_ready_def)
    let ?x = "(set_state (STATE_OK OR STATE_CONNECTING) ?c2)
        \<lparr> conn := Some (ConnectionHandler_init (new_sock env)) \<rparr>"
    have u: "connect env ?c2 = connect_attempt env ?x" by (rule connect_ready_unfold[OF rdy])
    have nf: "\<not> connect_fails env ?x" using h by (simp add: connect_fails_def)
    obtain r c3 where c3: "connect_attempt env ?x = (r, c3)" by (cases "connect_attempt env ?x")
    have "r = Inr True" "map_option outq (conn c3) = Some [negotiation_msg (Some i)]"
      using connect_attempt_succeeds[OF nf, of "new_sock env"] c3 by simp_all
    moreover have "client_id c3 = Some a"
      using connect_attempt_address[of env ?x] c3 by (simp add: client_id_def)
    ultimately show "\<exists>c3. connect env ?c2 = (Inr True, c3) \<and> client_id c3 = Some a \<and>
              map_option outq (conn c3) = Some [negotiation_msg (Some i)]"
      using u c3 by simp
  qed
  show "\<exists>c1 c2. set_address (Some a) c = Inr c1 \<and> set_client_id (Some i) c1 = Inr c2 \<and>
        client_id c2 = Some a \<and> c_client_id c2 = Some i \<and>
        (c_port c \<noteq> None \<and> state c AND STATE_NOT_CONNECTED \<noteq> 0 \<and> \<not> connect_fails env c2 \<longrightarrow>
           (\<exists>c3. connect env c2 = (Inr True, c3) \<and> client_id c3 = Some a \<and>
              map_option outq (conn c3) = Some [negotiation_msg (Some i)]))"
    using s1 s2 g conn by blast
qed

lemma ok_env_never_fails: "\<not> connect_fails ok_env c"
  by (simp add: connect_fails_def bind_exn_def ok_env_def)

theorem client_id_reads_address_witness:
  "state ready_client AND STATE_RUNNING = 0 \<and> c_port ready_client \<noteq> None \<and>
   state ready_client AND STATE_NOT_CONNECTED \<noteq> 0 \<and>
   (\<exists>c1 c2 c3. set_address (Some (ascii ''10.0.0.7'')) ready_client = Inr c1 \<and>
      set_client_id (Some (ascii ''xyz'')) c1 = Inr c2 \<and>
      connect ok_env c2 = (Inr True, c3) \<and>
      client_id c3 = Some (ascii ''10.0.0.7'') \<and>
      map_option outq (conn c3) = Some [negotiation_msg (Some (ascii ''xyz''))])"
proof -
  have a: "state ready_client AND STATE_RUNNING = 0" "c_port ready_client \<noteq> None"
    "state ready_client AND STATE_NOT_CONNECTED \<noteq> 0"
    by (simp_all add: ready_client_def state_defs)
  show ?thesis
    using client_id_reads_address[of ready_client "ascii ''10.0.0.7''" "ascii ''xyz''" ok_env]
      a ok_env_never_fails
    by auto
qed

section \<open>Properties of the server\<close>

subsection \<open>Acceptance of a negotiation\<close>

lemma negotiated_id_Some:
  "negotiated_id fb first = Some v \<longleftrightarrow>
   (\<exists>m kvs. first = Some m \<and> subject m = JStr (ascii ''negotiation'') \<and>
      payload m = JObj kvs \<and> map_of kvs (ascii ''id'') = Some v \<and> truthy fb v)"
proof (cases first)
  case None
  then show ?thesis by (simp add: negotiated_id_def)
next
  case (Some m)
  show ?thesis
  proof (cases "payload m")
    case (JObj kvs)
    with Some show ?thesis
      by (auto simp: negotiated_id_def split: option.splits)
  qed (use Some in \<open>auto simp: negotiated_id_def\<close>)
qed

lemma ClientHandler_init_simps [simp]:
  "ch_client_id (ClientHandler_init fb s a first) = negotiated_id fb first"
  "sock (ClientHandler_init fb s a first) = s"
  "should_run (ClientHandler_init fb s a first) = True"
  "thread_alive (ClientHandler_init fb s a first) = True"
  "outq (ClientHandler_init fb s a first) = []"
  "addr (ClientHandler_init fb s a first) = a"
  by (simp_all add: ClientHandler_init_def start_def)

lemma negotiate_rejected:
  "negotiated_id fb first = None \<Longrightarrow>
   negotiate_client_id fb s a first srv =
     (None, update_handler (next_ref srv) (stop_nonblocking (ClientHandler_init fb s a first))
        ((update_handler (next_ref srv) (ClientHandler_init fb s a first) srv)
           \<lparr> next_ref := Suc (next_ref srv) \<rparr>))"
  by (simp add: negotiate_client_id_def Let_def)

lemma update_handler_simps [simp]:
  "conns (update_handler r h srv) = conns srv"
  "next_ref (update_handler r h srv) = next_ref srv"
  "handlers (update_handler r h srv) r = h"
  "r' \<noteq> r \<Longrightarrow> handlers (update_handler r h srv) r' = handlers srv r'"
  by (simp_all add: update_handler_def)

text \<open>
  Claim C10. The handler's client id is set to \<open>v\<close> exactly when a first message arrived
  within the deadline, its subject is \<open>negotiation\<close>, its payload is a dict holding
  \<open>id\<close>, and the value \<open>v\<close> stored there is truthy. In every other case (no message,
  another subject, no \<open>id\<close> key, an empty-string id) the client id stays unset; then
  the new handler is stopped, the directory is left as it was, and nothing is raised.
\<close>

theorem negotiation_acceptance:
  "(ch_client_id (ClientHandler_init fb s a first) = Some v \<longleftrightarrow>
     (\<exists>m kvs. first = Some m \<and> subject m = JStr (ascii ''negotiation'') \<and>
        payload m = JObj kvs \<and> map_of kvs (ascii ''id'') = Some v \<and> truthy fb v)) \<and>
   (ch_client_id (ClientHandler_init fb s a first) = None \<longrightarrow>
      fst (negotiate_client_id fb s a first srv) = None \<and>
      conns (snd (negotiate_client_id fb s a first srv)) = conns srv \<and>
      \<not> should_run (handlers (snd (negotiate_client_id fb s a first srv)) (next_ref srv)))"
proof (intro conjI impI)
  show "ch_client_id (ClientHandler_init fb s a first) = Some v \<longleftrightarrow>
     (\<exists>m kvs. first = Some m \<and> subject m = JStr (ascii ''negotiation'') \<and>
        payload m = JObj kvs \<and> map_of kvs (ascii ''id'') = Some v \<and> truthy fb v)"
    by (simp add: negotiated_id_Some)
next
  assume "ch_client_id (ClientHandler_init fb s a first) = None"
  then have n: "negotiated_id fb first = None" by simp
  show "fst (negotiate_client_id fb s a first srv) = None"
    by (simp add: negotiate_rejected[OF n])
  show "conns (snd (negotiate_client_id fb s a first srv)) = conns srv"
    by (simp add: negotiate_rejected[OF n])
  show "\<not> should_run (handlers (snd (negotiate_client_id fb s a first srv)) (next_ref srv))"
    by (simp add: negotiate_rejected[OF n] stop_nonblocking_def)
qed

subsection \<open>Dedup on reconnect\<close>

text \<open>
  \<open>Server.__init__\<close>: an empty directory. References not yet handed out hold an idle
  placeholder.
\<close>

definition idle_handler :: "'f client_handler" where
  "idle_handler = \<lparr> sock = 0, should_run = False, thread_alive = False,
     outq = [], inq = [], addr = 0, ch_client_id = None \<rparr>"

definition Server_init :: "'f server" where
  "Server_init = \<lparr> conns = [], handlers = (\<lambda>r. idle_handler), next_ref = 0 \<rparr>"







lemma negotiate_new:
  assumes "negotiated_id fb first = Some cid" "hashable cid" "map_of (conns srv) cid = None"
  shows "negotiate_client_id fb s a first srv =
     (None, ((update_handler (next_ref srv) (ClientHandler_init fb s a first) srv)
             \<lparr> next_ref := Suc (next_ref srv) \<rparr>)
               \<lparr> conns := conns srv @ [(cid, next_ref srv)] \<rparr>)"
  using assms by (simp add: negotiate_client_id_def Let_def)


lemma handlers_next_ref_update [simp]:
  "handlers (srv\<lparr> next_ref := n \<rparr>) = handlers srv"
  "conns (srv\<lparr> next_ref := n \<rparr>) = conns srv"
  by simp_all




subsection \<open>Concrete servers\<close>

text \<open>
  \<open>srv_abc\<close>: a fresh server after the negotiation of client \<open>abc\<close> on socket 1, whose
  handler is running. \<open>srv_dropped\<close>: the same server after that connection was lost
  (loop ended) with one message still queued.
\<close>

definition abc_id :: "unit json" where
  "abc_id = JStr (ascii ''abc'')"

definition first_abc :: "unit message option" where
  "first_abc = Some (negotiation_msg (Some (ascii ''abc'')))"

definition srv_abc :: "unit server" where
  "srv_abc = snd (negotiate_client_id (\<lambda>x. True) 1 10 first_abc Server_init)"


lemma first_abc_id: "negotiated_id fb first_abc = Some abc_id"
  by (simp add: negotiated_id_def first_abc_def negotiation_msg_def Message_def abc_id_def
      ascii_def)

lemma abc_hashable: "hashable abc_id"
  by (simp add: abc_id_def)

lemma srv_abc_eq:
  "srv_abc = \<lparr> conns = [(abc_id, 0)],
               handlers = (\<lambda>r. idle_handler)(0 := ClientHandler_init (\<lambda>x. True) 1 10 first_abc),
               next_ref = 1 \<rparr>"
  by (simp add: srv_abc_def negotiate_new[OF first_abc_id abc_hashable] Server_init_def
      update_handler_def)

lemma srv_abc_facts:
  "conns srv_abc = [(abc_id, 0)]" "next_ref srv_abc = 1"
  "should_run (handlers srv_abc 0)" "sock (handlers srv_abc 0) = 1"
  by (simp_all add: srv_abc_eq)




definition empty_id_first :: "unit message option" where
  "empty_id_first = Some (negotiation_msg (Some []))"

theorem negotiation_acceptance_witness:
  "ch_client_id (ClientHandler_init (\<lambda>x. True) 2 20 empty_id_first) = None \<and>
   ch_client_id (ClientHandler_init (\<lambda>x. True) 2 20
      (Some (Message (JStr (ascii ''negotiation'')) (JObj [])) :: unit message option)) = None \<and>
   ch_client_id (ClientHandler_init (\<lambda>x. True) 2 20
      (Some (Message (JStr (ascii ''hello'')) (JObj [(ascii ''id'', abc_id)])))) = None \<and>
   ch_client_id (ClientHandler_init (\<lambda>x. True) 2 20 first_abc) = Some abc_id \<and>
   fst (negotiate_client_id (\<lambda>x. True) 2 20 empty_id_first srv_abc) = None \<and>
   conns (snd (negotiate_client_id (\<lambda>x. True) 2 20 empty_id_first srv_abc)) = [(abc_id, 0)] \<and>
   \<not> should_run (handlers (snd (negotiate_client_id (\<lambda>x. True) 2 20 empty_id_first srv_abc)) 1)"
proof -
  have e: "ch_client_id (ClientHandler_init (\<lambda>x. True) 2 20 empty_id_first) = None"
    by (simp add: negotiated_id_def empty_id_first_def negotiation_msg_def Message_def)
  have k: "ch_client_id (ClientHandler_init (\<lambda>x. True) 2 20
      (Some (Message (JStr (ascii ''negotiation'')) (JObj [])) :: unit message option)) = None"
    by (simp add: negotiated_id_def Message_def)
  have o: "ch_client_id (ClientHandler_init (\<lambda>x. True) 2 20
      (Some (Message (JStr (ascii ''hello'')) (JObj [(ascii ''id'', abc_id)])))) = None"
    by (simp add: negotiated_id_def Message_def ascii_def)
  have a: "ch_client_id (ClientHandler_init (\<lambda>x. True) 2 20 first_abc) = Some abc_id"
    by (simp add: first_abc_id)
  show ?thesis
    using negotiation_acceptance[of "\<lambda>x. True" 2 20 empty_id_first abc_id srv_abc] e k o a
    by (simp add: srv_abc_facts)
qed

section \<open>Properties of the connection handler\<close>

subsection \<open>FIFO order of the outbound queue\<close>

text \<open>
  The bytes of one message on the wire: header then body; nothing for a message whose
  payload cannot be encoded or whose header does not fit.
\<close>

definition frame :: "('f \<Rightarrow> pystr) \<Rightarrow> 'f message \<Rightarrow> pybytes" where
  "frame fr m =
     (case serialize fr m of
        Inl e \<Rightarrow> []
      | Inr bytes_out \<Rightarrow>
          (case pack_header fr (length bytes_out) (subject m) of
             Inl e \<Rightarrow> []
           | Inr header \<Rightarrow> header @ bytes_out))"

text \<open>A socket that accepts at least one byte at every call and never raises.\<close>

definition good_socket :: "(nat \<Rightarrow> send_resp) \<Rightarrow> bool" where
  "good_socket script = (\<forall>i. \<exists>k. script i = Sent (Suc k))"

definition serializable :: "('f \<Rightarrow> pystr) \<Rightarrow> 'f message \<Rightarrow> bool" where
  "serializable fr m = (\<exists>b. serialize fr m = Inr b)"

lemma write_all_done:
  "\<not> t < length d \<Longrightarrow> write_all c sc d t s = (AllSent, s)"
  by (subst write_all.simps) simp

lemma write_all_raise:
  "t < length d \<Longrightarrow> sc (calls s) = SendRaises e \<Longrightarrow>
   write_all c sc d t s = (if c then ZeroSent else Raised e, s\<lparr> calls := Suc (calls s) \<rparr>)"
  by (subst write_all.simps) simp

lemma write_all_zero:
  "t < length d \<Longrightarrow> sc (calls s) = Sent k \<Longrightarrow> min k (length d - t) = 0 \<Longrightarrow>
   write_all c sc d t s = (ZeroSent, s\<lparr> calls := Suc (calls s) \<rparr>)"
  by (subst write_all.simps) simp

lemma write_all_step:
  "t < length d \<Longrightarrow> sc (calls s) = Sent k \<Longrightarrow> min k (length d - t) \<noteq> 0 \<Longrightarrow>
   write_all c sc d t s =
     write_all c sc d (t + min k (length d - t))
       (s\<lparr> calls := Suc (calls s),
           wire := wire s @ take (min k (length d - t)) (drop t d) \<rparr>)"
  by (subst write_all.simps) (simp del: min_less_iff_conj)

lemma write_all_wire:
  "write_all c sc d t s = (r, s') \<Longrightarrow>
   \<exists>p. wire s' = wire s @ p \<and> prefix p (drop t d) \<and> (r = AllSent \<longrightarrow> p = drop t d)"
proof (induction c sc d t s arbitrary: r s' rule: write_all.induct)
  case (1 c sc d t s)
  show ?case
  proof (cases "t < length d")
    case False
    with "1.prems" show ?thesis by (simp add: write_all_done)
  next
    case True
    show ?thesis
    proof (cases "sc (calls s)")
      case (SendRaises e)
      with True "1.prems" show ?thesis by (auto simp: write_all_raise split: if_splits)
    next
      case (Sent k)
      let ?n = "min k (length d - t)"
      show ?thesis
      proof (cases "?n = 0")
        case True
        with \<open>t < length d\<close> Sent "1.prems" show ?thesis by (auto simp: write_all_zero)
      next
        case False
        let ?s1 = "s\<lparr> calls := Suc (calls s), wire := wire s @ take ?n (drop t d) \<rparr>"
        have w: "write_all c sc d (t + ?n) ?s1 = (r, s')"
          using \<open>t < length d\<close> Sent False "1.prems" by (simp add: write_all_step)
        from "1.IH"[OF \<open>t < length d\<close> Sent False w]
        obtain p where p: "wire s' = wire ?s1 @ p" "prefix p (drop (t + ?n) d)"
          "r = AllSent \<longrightarrow> p = drop (t + ?n) d" by blast
        have split: "drop t d = take ?n (drop t d) @ drop (t + ?n) d"
          by (metis add.commute append_take_drop_id drop_drop)
        have "wire s' = wire s @ (take ?n (drop t d) @ p)" using p(1) by simp
        moreover have "prefix (take ?n (drop t d) @ p) (drop t d)"
          using p(2) split by (metis same_prefix_prefix)
        moreover have "r = AllSent \<longrightarrow> take ?n (drop t d) @ p = drop t d"
          using p(3) split by auto
        ultimately show ?thesis by blast
      qed
    qed
  qed
qed

lemma write_all_good:
  "good_socket sc \<Longrightarrow> fst (write_all c sc d t s) = AllSent"
proof (induction c sc d t s rule: write_all.induct)
  case (1 c sc d t s)
  show ?case
  proof (cases "t < length d")
    case False
    then show ?thesis by (simp add: write_all_done)
  next
    case True
    from "1.prems" obtain k where k: "sc (calls s) = Sent (Suc k)"
      by (auto simp: good_socket_def)
    have nz: "min (Suc k) (length d - t) \<noteq> 0" using True by simp
    show ?thesis
      using "1.IH"[OF True k nz "1.prems"] write_all_step[of t d sc s "Suc k" c, OF True k nz]
      by simp
  qed
qed

lemma tick_empty:
  "outq h = [] \<Longrightarrow> send_queue_tick fr sc (h, s) = (Inr True, h, s)"
  by (simp add: send_queue_tick_def)

lemma tick_nonempty:
  assumes q: "outq h = m # rest" and t: "send_queue_tick fr sc (h, s) = (r, h', s')"
  shows "\<exists>p. wire s' = wire s @ p \<and> prefix p (frame fr m) \<and>
           (r = Inr True \<longrightarrow> outq h' = rest \<and> p = frame fr m) \<and>
           (r = Inr False \<longrightarrow> outq h' = m # rest) \<and>
           (outq h' = rest \<or> outq h' = m # rest)"
proof (cases "serialize fr m")
  case (Inl e)
  with q t show ?thesis by (auto simp: send_queue_tick_def frame_def)
next
  case (Inr b)
  show ?thesis
  proof (cases "pack_header fr (length b) (subject m)")
    case (Inl e)
    with Inr q t show ?thesis by (auto simp: send_queue_tick_def frame_def)
  next
    case hd: (Inr hdr)
    have fr: "frame fr m = hdr @ b" using Inr hd by (simp add: frame_def)
    obtain r1 s1 where w1: "write_all False sc hdr 0 s = (r1, s1)"
      by (cases "write_all False sc hdr 0 s")
    from write_all_wire[OF w1] obtain p1 where p1: "wire s1 = wire s @ p1" "prefix p1 hdr"
      "r1 = AllSent \<longrightarrow> p1 = hdr" by auto
    show ?thesis
    proof (cases r1)
      case (Raised e)
      with Inr hd q t w1 have "s' = s1" "outq h' = rest"
        by (auto simp: send_queue_tick_def)
      with p1 fr Raised Inr hd q t w1 show ?thesis
        by (auto simp: send_queue_tick_def intro: prefix_prefix)
    next
      case ZeroSent
      with Inr hd q t w1 have "s' = s1" "outq h' = m # rest" "r = Inr False"
        by (auto simp: send_queue_tick_def)
      with p1 fr show ?thesis by (auto intro: prefix_prefix)
    next
      case AllSent
      obtain r2 s2 where w2: "write_all True sc b 0 s1 = (r2, s2)"
        by (cases "write_all True sc b 0 s1")
      from write_all_wire[OF w2] obtain p2 where p2: "wire s2 = wire s1 @ p2" "prefix p2 b"
        "r2 = AllSent \<longrightarrow> p2 = b" by auto
      have s2: "s' = s2" using AllSent Inr hd q t w1 w2
        by (cases r2) (auto simp: send_queue_tick_def)
      have w: "wire s' = wire s @ (hdr @ p2)" using s2 p2(1) p1 AllSent by simp
      have pre: "prefix (hdr @ p2) (frame fr m)" using p2(2) fr by simp
      show ?thesis
      proof (cases "r2 = AllSent")
        case True
        with AllSent Inr hd q t w1 w2 have "r = Inr True" "outq h' = rest"
          by (auto simp: send_queue_tick_def)
        with w pre True p2(3) fr show ?thesis by auto
      next
        case False
        with AllSent Inr hd q t w1 w2 have "r = Inr False" "outq h' = m # rest"
          by (cases r2; auto simp: send_queue_tick_def)+
        with w pre show ?thesis by auto
      qed
    qed
  qed
qed

lemma send_ticks_fifo:
  "send_ticks n fr sc (h, s) = (r, h', s') \<Longrightarrow>
   prefix (wire s') (wire s @ concat (map (frame fr) (outq h))) \<and> suffix (outq h') (outq h)"
proof (induction n arbitrary: h s)
  case 0
  then show ?case by simp
next
  case (Suc n)
  obtain r1 h1 s1 where t: "send_queue_tick fr sc (h, s) = (r1, h1, s1)"
    by (cases "send_queue_tick fr sc (h, s)") auto
  show ?case
  proof (cases "outq h")
    case Nil
    with t have e: "r1 = Inr True" "h1 = h" "s1 = s" by (simp_all add: tick_empty)
    with Suc.prems t have "send_ticks n fr sc (h, s) = (r, h', s')" by simp
    from Suc.IH[OF this] show ?thesis .
  next
    case (Cons m rest)
    from tick_nonempty[OF Cons t] obtain p where p: "wire s1 = wire s @ p"
      "prefix p (frame fr m)" "r1 = Inr True \<longrightarrow> outq h1 = rest \<and> p = frame fr m"
      "outq h1 = rest \<or> outq h1 = m # rest" by blast
    show ?thesis
    proof (cases "r1 = Inr True")
      case True
      with Suc.prems t have "send_ticks n fr sc (h1, s1) = (r, h', s')" by simp
      from Suc.IH[OF this] True p Cons show ?thesis
        by (auto simp: suffix_Cons)
    next
      case False
      with Suc.prems t have "r = r1" "h' = h1" "s' = s1"
        by (auto split: sum.splits bool.splits)
      with p Cons show ?thesis
        by (auto simp: suffix_Cons intro: prefix_prefix)
    qed
  qed
qed

lemma tick_good:
  assumes g: "good_socket sc" and ser: "serializable fr m" and q: "outq h = m # rest"
  shows "\<exists>s'. send_queue_tick fr sc (h, s) = (Inr True, h\<lparr> outq := rest \<rparr>, s') \<and>
              wire s' = wire s @ frame fr m"
proof -
  from ser obtain b where b: "serialize fr m = Inr b" by (auto simp: serializable_def)
  show ?thesis
  proof (cases "pack_header fr (length b) (subject m)")
    case (Inl e)
    with b q show ?thesis by (simp add: send_queue_tick_def frame_def)
  next
    case (Inr hdr)
    obtain s1 where w1: "write_all False sc hdr 0 s = (AllSent, s1)"
      using write_all_good[OF g, of False hdr 0 s] by (cases "write_all False sc hdr 0 s") auto
    obtain s2 where w2: "write_all True sc b 0 s1 = (AllSent, s2)"
      using write_all_good[OF g, of True b 0 s1] by (cases "write_all True sc b 0 s1") auto
    from write_all_wire[OF w1] write_all_wire[OF w2]
    have "wire s2 = wire s @ hdr @ b" by auto
    with b Inr q w1 w2 show ?thesis by (simp add: send_queue_tick_def frame_def)
  qed
qed

lemma send_ticks_good:
  "good_socket sc \<Longrightarrow> list_all (serializable fr) q \<Longrightarrow> outq h = q \<Longrightarrow>
   \<exists>s'. send_ticks (length q) fr sc (h, s) = (Inr True, h\<lparr> outq := [] \<rparr>, s') \<and>
        wire s' = wire s @ concat (map (frame fr) q)"
proof (induction q arbitrary: h s)
  case Nil
  then show ?case by simp
next
  case (Cons m rest)
  from Cons.prems have ser: "serializable fr m" and sers: "list_all (serializable fr) rest"
    by simp_all
  from tick_good[OF Cons.prems(1) ser Cons.prems(3), of s] obtain s1 where
    t: "send_queue_tick fr sc (h, s) = (Inr True, h\<lparr> outq := rest \<rparr>, s1)"
    and w: "wire s1 = wire s @ frame fr m" by blast
  from Cons.IH[OF Cons.prems(1) sers, of "h\<lparr> outq := rest \<rparr>" s1] obtain s' where
    "send_ticks (length rest) fr sc (h\<lparr> outq := rest \<rparr>, s1)
       = (Inr True, h\<lparr> outq := rest, outq := [] \<rparr>, s')"
    "wire s' = wire s1 @ concat (map (frame fr) rest)" by auto
  with t w show ?case by simp
qed

text \<open>
  Claim C6. \<open>send\<close> appends at the tail. One send step leaves the queue as it was or
  removes its head, and a step that returns \<open>False\<close> (a write returned zero bytes)
  leaves the queue exactly as it was, the popped message back at the head. Over any
  number of steps and any socket behaviour the bytes written are a prefix of the frames
  of the queued messages in queue order, and the queue left is a suffix of the queue at
  the start. On a socket that keeps accepting bytes, as many steps as there are
  messages write the frames of all of them, in enqueue order, and empty the queue.
\<close>

theorem fifo_outbound_order:
  "outq (send m h) = outq h @ [m] \<and>
   (send_queue_tick fr sc (h, s) = (r, h', s') \<longrightarrow>
      (outq h' = outq h \<or> outq h' = tl (outq h)) \<and> (r = Inr False \<longrightarrow> outq h' = outq h)) \<and>
   (send_ticks n fr sc (h, s) = (r, h', s') \<longrightarrow>
      prefix (wire s') (wire s @ concat (map (frame fr) (outq h))) \<and>
      suffix (outq h') (outq h)) \<and>
   (good_socket sc \<and> list_all (serializable fr) (outq h) \<longrightarrow>
      (\<exists>s'. send_ticks (length (outq h)) fr sc (h, s) = (Inr True, h\<lparr> outq := [] \<rparr>, s') \<and>
            wire s' = wire s @ concat (map (frame fr) (outq h))))"
proof (intro conjI impI)
  show "outq (send m h) = outq h @ [m]" by (simp add: send_def)
next
  assume t: "send_queue_tick fr sc (h, s) = (r, h', s')"
  show "outq h' = outq h \<or> outq h' = tl (outq h)"
  proof (cases "outq h")
    case Nil
    with t show ?thesis by (simp add: tick_empty)
  next
    case (Cons m rest)
    from tick_nonempty[OF Cons t] Cons show ?thesis by auto
  qed
  show "outq h' = outq h" if "r = Inr False"
  proof (cases "outq h")
    case Nil
    with t that show ?thesis by (simp add: tick_empty)
  next
    case (Cons m rest)
    from tick_nonempty[OF Cons t] Cons that show ?thesis by auto
  qed
next
  assume "send_ticks n fr sc (h, s) = (r, h', s')"
  from send_ticks_fifo[OF this]
  show "prefix (wire s') (wire s @ concat (map (frame fr) (outq h)))"
    and "suffix (outq h') (outq h)" by simp_all
next
  assume "good_socket sc \<and> list_all (serializable fr) (outq h)"
  then show "\<exists>s'. send_ticks (length (outq h)) fr sc (h, s) = (Inr True, h\<lparr> outq := [] \<rparr>, s') \<and>
            wire s' = wire s @ concat (map (frame fr) (outq h))"
    using send_ticks_good[of sc fr "outq h" h s] by simp
qed

definition fr0 :: "unit \<Rightarrow> pystr" where "fr0 x = []"

definition m1 :: "unit message" where "m1 = Message (JStr (ascii ''one'')) (JObj [])"
definition m2 :: "unit message" where "m2 = Message (JStr (ascii ''two'')) (JObj [])"
definition m3 :: "unit message" where "m3 = Message (JStr (ascii ''three'')) (JObj [])"

definition h3 :: "unit handler" where
  "h3 = send m3 (send m2 (send m1 (ConnectionHandler_init 1)))"

definition io0 :: io where "io0 = \<lparr> wire = [], calls = 0 \<rparr>"

lemma serialize_empty_payload: "serialize fr (Message subj (JObj [])) = Inr [123, 125]"
  by (simp add: serialize_def Message_def utf8_char_def)

lemma m123_serializable: "list_all (serializable fr0) [m1, m2, m3]"
  by (simp add: serializable_def m1_def m2_def m3_def serialize_empty_payload)

lemma h3_outq: "outq h3 = [m1, m2, m3]"
  by (simp add: h3_def send_def ConnectionHandler_init_def)

lemma pack_header_m1:
  "pack_header fr0 2 (JStr (ascii ''one'')) =
     Inr ([123, 34, 108, 101, 110, 103, 116, 104, 34, 58, 32, 50, 44, 32, 34, 115, 117, 98,
           106, 101, 99, 116, 34, 58, 32, 34, 111, 110, 101, 34, 125] @ replicate 33 0)"
  by code_simp

lemma pack_header_m1':
  "pack_header fr0 (Suc (Suc 0)) (JStr (ascii ''one'')) =
     Inr ([123, 34, 108, 101, 110, 103, 116, 104, 34, 58, 32, 50, 44, 32, 34, 115, 117, 98,
           106, 101, 99, 116, 34, 58, 32, 34, 111, 110, 101, 34, 125] @ replicate 33 0)"
  using pack_header_m1 by (simp add: numeral_2_eq_2)

lemma tick_zero_write_m1:
  "send_queue_tick fr0 (\<lambda>i. Sent 0) (h3, io0) = (Inr False, h3, io0\<lparr> calls := 1 \<rparr>)"
proof -
  have s: "serialize fr0 m1 = Inr [123, 125]" "subject m1 = JStr (ascii ''one'')"
    by (simp_all add: m1_def serialize_empty_payload) (simp add: Message_def)
  have h: "h3\<lparr> outq := [m2, m3], outq := [m1, m2, m3] \<rparr> = h3"
    using h3_outq by simp
  show ?thesis
    by (simp add: send_queue_tick_def h3_outq s pack_header_m1' write_all_zero io0_def h)
qed

theorem fifo_outbound_order_witness:
  "outq h3 = [m1, m2, m3] \<and>
   good_socket (\<lambda>i. Sent 7) \<and> list_all (serializable fr0) (outq h3) \<and>
   (\<exists>s'. send_ticks 3 fr0 (\<lambda>i. Sent 7) (h3, io0) = (Inr True, h3\<lparr> outq := [] \<rparr>, s') \<and>
         wire s' = frame fr0 m1 @ frame fr0 m2 @ frame fr0 m3) \<and>
   fst (send_queue_tick fr0 (\<lambda>i. Sent 0) (h3, io0)) = Inr False \<and>
   outq (fst (snd (send_queue_tick fr0 (\<lambda>i. Sent 0) (h3, io0)))) = [m1, m2, m3]"
proof -
  have g: "good_socket (\<lambda>i. Sent 7)" by (simp add: good_socket_def)
  have l: "list_all (serializable fr0) (outq h3)" using m123_serializable h3_outq by simp
  have z: "fst (send_queue_tick fr0 (\<lambda>i. Sent 0) (h3, io0)) = Inr False"
    by (simp add: tick_zero_write_m1)
  note t = fifo_outbound_order[of m1 h3 fr0 "\<lambda>i. Sent 7" io0
      "Inr False" "fst (snd (send_queue_tick fr0 (\<lambda>i. Sent 0) (h3, io0)))"
      "snd (snd (send_queue_tick fr0 (\<lambda>i. Sent 0) (h3, io0)))" 3]
  note u = fifo_outbound_order[of m1 h3 fr0 "\<lambda>i. Sent 0" io0
      "Inr False" "fst (snd (send_queue_tick fr0 (\<lambda>i. Sent 0) (h3, io0)))"
      "snd (snd (send_queue_tick fr0 (\<lambda>i. Sent 0) (h3, io0)))" 3]
  have a: "\<exists>s'. send_ticks 3 fr0 (\<lambda>i. Sent 7) (h3, io0) = (Inr True, h3\<lparr> outq := [] \<rparr>, s') \<and>
         wire s' = frame fr0 m1 @ frame fr0 m2 @ frame fr0 m3"
    using t g l by (simp add: h3_outq io0_def numeral_3_eq_3)
  have b: "outq (fst (snd (send_queue_tick fr0 (\<lambda>i. Sent 0) (h3, io0)))) = [m1, m2, m3]"
    using u z by (simp add: h3_outq tick_zero_write_m1)
  show ?thesis using g l a z b h3_outq by simp
qed

subsection \<open>The header budget\<close>

definition is_ascii :: "pystr \<Rightarrow> bool" where
  "is_ascii s = list_all (\<lambda>c. c < 128) s"

lemma is_ascii_simps [simp]:
  "is_ascii []" "is_ascii (c # cs) = (c < 128 \<and> is_ascii cs)"
  "is_ascii (xs @ ys) = (is_ascii xs \<and> is_ascii ys)"
  by (simp_all add: is_ascii_def)

lemma is_ascii_concat: "(\<forall>x\<in>set xss. is_ascii x) \<Longrightarrow> is_ascii (concat xss)"
  by (induction xss) simp_all

lemma hexdigit_ascii: "d < 16 \<Longrightarrow> hexdigit d < 128"
  by (simp add: hexdigit_def)

lemma hex4_ascii: "is_ascii (hex4 n)"
  by (simp add: hex4_def hexdigit_ascii)

lemma esc_char_ascii: "is_ascii (esc_char c)"
  by (simp add: esc_char_def hex4_ascii)

lemma encode_basestring_ascii_is_ascii: "is_ascii (encode_basestring_ascii s)"
  by (simp add: encode_basestring_ascii_def is_ascii_concat esc_char_ascii)

lemma digits_ascii: "is_ascii (digits n)"
proof (induction n rule: digits.induct)
  case (1 n)
  show ?case
  proof (cases "n < 10")
    case True
    then show ?thesis by (subst digits.simps) simp
  next
    case False
    with 1 have "is_ascii (digits (n div 10))" by simp
    moreover have "48 + n mod 10 < 128" by simp
    ultimately show ?thesis using False by (subst digits.simps) simp
  qed
qed

lemma utf8_encode_ascii: "is_ascii s \<Longrightarrow> utf8_encode s = Inr s"
  by (induction s) (simp_all add: utf8_char_def)

text \<open>
  The header JSON for a body of \<open>n\<close> bytes and a string subject, written out:
  \<open>{"length": n, "subject": "..."}\<close>.
\<close>

definition header_text :: "nat \<Rightarrow> pystr \<Rightarrow> pystr" where
  "header_text n subj =
     [123, 34, 108, 101, 110, 103, 116, 104, 34, 58, 32] @ digits n
     @ [44, 32, 34, 115, 117, 98, 106, 101, 99, 116, 34, 58, 32, 34]
     @ concat (map esc_char subj) @ [34, 125]"

lemma dumps_header: "dumps fr (header_dict n (JStr subj)) = header_text n subj"
  by (simp add: header_dict_def header_text_def repr_int_def encode_basestring_ascii_def
      ascii_def esc_char_def)

lemma header_text_ascii: "is_ascii (header_text n subj)"
  by (simp add: header_text_def digits_ascii is_ascii_concat esc_char_ascii)

lemma header_text_length:
  "length (header_text n subj) = 27 + length (digits n) + length (concat (map esc_char subj))"
  by (simp add: header_text_def)

lemma pack_header_str:
  "pack_header fr n (JStr subj) =
     (if HEADER_LEN_BYTES < length (header_text n subj) then Inl OverflowError
      else Inr (header_text n subj @ replicate (HEADER_LEN_BYTES - length (header_text n subj)) 0))"
  by (simp add: pack_header_def dumps_header utf8_encode_ascii[OF header_text_ascii] ljust_def)

text \<open>
  Claim C4. For a string subject the header JSON is pure ASCII, so its UTF-8 encoding is
  the text itself, of \<open>27\<close> bytes plus the digits of the body length plus the escaped
  subject. Building the header raises \<open>OverflowError\<close> if and only if that text is longer
  than 64 bytes; at 64 bytes or fewer it succeeds and gives the text padded with null
  bytes to exactly 64. A send step whose header overflows catches the error: the
  message is dropped, nothing is written, and the step returns \<open>True\<close>.
\<close>

theorem header_budget:
  "utf8_encode (dumps fr (header_dict n (JStr subj))) = Inr (header_text n subj) \<and>
   length (header_text n subj) = 27 + length (digits n) + length (concat (map esc_char subj)) \<and>
   (pack_header fr n (JStr subj) = Inl OverflowError \<longleftrightarrow> 64 < length (header_text n subj)) \<and>
   (length (header_text n subj) \<le> 64 \<longrightarrow>
      (\<exists>hdr. pack_header fr n (JStr subj) = Inr hdr \<and> length hdr = 64 \<and>
         take (length (header_text n subj)) hdr = header_text n subj \<and>
         drop (length (header_text n subj)) hdr
           = replicate (64 - length (header_text n subj)) 0)) \<and>
   (outq h = m # rest \<and> serialize fr m = Inr body \<and> subject m = JStr subj \<and>
    64 < length (header_text (length body) subj) \<longrightarrow>
      send_queue_tick fr sc (h, s) = (Inr True, h\<lparr> outq := rest \<rparr>, s))"
proof (intro conjI impI)
  show "utf8_encode (dumps fr (header_dict n (JStr subj))) = Inr (header_text n subj)"
    by (simp add: dumps_header utf8_encode_ascii[OF header_text_ascii])
  show "length (header_text n subj) = 27 + length (digits n) + length (concat (map esc_char subj))"
    by (rule header_text_length)
  show "pack_header fr n (JStr subj) = Inl OverflowError \<longleftrightarrow> 64 < length (header_text n subj)"
    by (simp add: pack_header_str HEADER_LEN_BYTES_def)
next
  assume "length (header_text n subj) \<le> 64"
  then show "\<exists>hdr. pack_header fr n (JStr subj) = Inr hdr \<and> length hdr = 64 \<and>
         take (length (header_text n subj)) hdr = header_text n subj \<and>
         drop (length (header_text n subj)) hdr
           = replicate (64 - length (header_text n subj)) 0"
    by (simp add: pack_header_str HEADER_LEN_BYTES_def)
next
  assume a: "outq h = m # rest \<and> serialize fr m = Inr body \<and> subject m = JStr subj \<and>
    64 < length (header_text (length body) subj)"
  then have "pack_header fr (length body) (subject m) = Inl OverflowError"
    by (simp add: pack_header_str HEADER_LEN_BYTES_def)
  with a show "send_queue_tick fr sc (h, s) = (Inr True, h\<lparr> outq := rest \<rparr>, s)"
    by (simp add: send_queue_tick_def)
qed

definition long_subject_msg :: "unit message" where
  "long_subject_msg = Message (JStr (replicate 37 97)) (JObj [])"

lemma header_text_64: "length (header_text 2 (replicate 36 97)) = 64"
  by code_simp

lemma header_text_65: "length (header_text 2 (replicate 37 97)) = 65"
  by code_simp

theorem header_budget_witness:
  "length (header_text 2 (replicate 36 97)) = 64 \<and>
   (\<exists>hdr. pack_header fr0 2 (JStr (replicate 36 97)) = Inr hdr \<and> length hdr = 64 \<and>
      hdr = header_text 2 (replicate 36 97)) \<and>
   length (header_text 2 (replicate 37 97)) = 65 \<and>
   pack_header fr0 2 (JStr (replicate 37 97)) = Inl OverflowError \<and>
   serialize fr0 long_subject_msg = Inr [123, 125] \<and>
   send_queue_tick fr0 (\<lambda>i. Sent 64) (send long_subject_msg (ConnectionHandler_init 1), io0)
     = (Inr True, ConnectionHandler_init 1, io0)"
proof -
  let ?h = "send long_subject_msg (ConnectionHandler_init 1) :: unit handler"
  have q: "outq ?h = long_subject_msg # []" by (simp add: send_def ConnectionHandler_init_def)
  have b: "serialize fr0 long_subject_msg = Inr [123, 125]"
    by (simp add: long_subject_msg_def serialize_empty_payload)
  have sj: "subject long_subject_msg = JStr (replicate 37 97)"
    by (simp add: long_subject_msg_def Message_def)
  have l: "64 < length (header_text (length [123, 125::nat]) (replicate 37 97))"
    using header_text_65 by (simp add: numeral_2_eq_2)
  have e: "?h\<lparr> outq := [] \<rparr> = ConnectionHandler_init 1"
    by (simp add: send_def ConnectionHandler_init_def)
  note a = header_budget[of fr0 2 "replicate 36 97" ?h long_subject_msg "[]" "[123, 125]"
      "\<lambda>i. Sent 64" io0]
  note c = header_budget[of fr0 2 "replicate 37 97" ?h long_subject_msg "[]" "[123, 125]"
      "\<lambda>i. Sent 64" io0]
  have 1: "\<exists>hdr. pack_header fr0 2 (JStr (replicate 36 97)) = Inr hdr \<and> length hdr = 64 \<and>
      hdr = header_text 2 (replicate 36 97)"
    using a header_text_64 by auto
  have 2: "pack_header fr0 2 (JStr (replicate 37 97)) = Inl OverflowError"
    using c header_text_65 by simp
  have 3: "send_queue_tick fr0 (\<lambda>i. Sent 64) (?h, io0) = (Inr True, ConnectionHandler_init 1, io0)"
    using c q b sj l e by simp
  show ?thesis using 1 2 3 b header_text_64 header_text_65 by simp
qed

subsection \<open>Round trip of the codec\<close>

text \<open>
  A string in which no high surrogate is immediately followed by a low surrogate. Python
  strings may hold lone surrogates; text that is valid Unicode holds none at all.
\<close>

fun no_surrogate_pair :: "pystr \<Rightarrow> bool" where
  "no_surrogate_pair [] = True"
| "no_surrogate_pair [c] = True"
| "no_surrogate_pair (c # d # s) =
     ((if is_high_surrogate c then \<not> is_low_surrogate d else True) \<and> no_surrogate_pair (d # s))"

definition good_str :: "pystr \<Rightarrow> bool" where
  "good_str s = (wf_str s \<and> no_surrogate_pair s)"

lemma hexval_hexdigit: "d < 16 \<Longrightarrow> hexval (hexdigit d) = Some d"
  by (auto simp: hexval_def hexdigit_def)

lemma hex4_value:
  assumes "n < 65536"
  shows "((n div 4096 mod 16 * 16 + n div 256 mod 16) * 16 + n div 16 mod 16) * 16 + n mod 16 = (n::nat)"
proof -
  have t: "n div 4096 mod 16 = n div 4096" using assms by simp
  have d1: "n div 256 = n div 16 div 16" and d2: "n div 4096 = n div 256 div 16"
    by (simp_all add: div_mult2_eq[symmetric])
  have a: "n = n div 16 * 16 + n mod 16" by simp
  have b: "n div 16 = n div 256 * 16 + n div 16 mod 16" unfolding d1 by simp
  have c: "n div 256 = n div 4096 * 16 + n div 256 mod 16" unfolding d2 by simp
  have "((n div 4096 * 16 + n div 256 mod 16) * 16 + n div 16 mod 16) * 16 + n mod 16 = n"
    using a b c by metis
  then show ?thesis using t by simp
qed

lemma hex4_value':
  "n < 65536 \<Longrightarrow>
   4096 * (n div 4096) + 256 * (n div 256 mod 16) + n div 16 mod 16 * 16 + n mod 16 = (n::nat)"
  using hex4_value[of n] by simp

lemma unhex4_hex4: "n < 65536 \<Longrightarrow> unhex4 (hex4 n @ rest) = Some (n, rest)"
  by (simp add: hex4_def hexval_hexdigit hex4_value')

lemma scanstring_quote: "scanstring (34 # cs) acc = Some (acc, cs)"
  by (simp add: scanstring.simps)

lemma scanstring_plain:
  "c \<noteq> 34 \<Longrightarrow> c \<noteq> 92 \<Longrightarrow> 32 \<le> c \<Longrightarrow> scanstring (c # cs) acc = scanstring cs (acc @ [c])"
  by (simp add: scanstring.simps)

lemma scanstring_short:
  "unescape e = Some ch \<Longrightarrow> e \<noteq> 117 \<Longrightarrow>
   scanstring (92 # e # cs) acc = scanstring cs (acc @ [ch])"
  by (simp add: scanstring.simps)

lemma scanstring_u:
  "unhex4 cs = Some (u, rest) \<Longrightarrow> (if is_high_surrogate u then low_escape rest else None) = None \<Longrightarrow>
   scanstring (92 # 117 # cs) acc = scanstring rest (acc @ [u])"
  by (simp add: scanstring.simps)

lemma scanstring_pair:
  "unhex4 cs = Some (u, rest) \<Longrightarrow> is_high_surrogate u \<Longrightarrow> low_escape rest = Some (u2, rest2) \<Longrightarrow>
   scanstring (92 # 117 # cs) acc = scanstring rest2 (acc @ [join_surrogates u u2])"
  by (simp add: scanstring.simps)

lemma low_escape_quote: "low_escape (34 # rest) = None"
  by (simp add: low_escape_def)

lemma low_escape_not_backslash: "c \<noteq> 92 \<Longrightarrow> low_escape (c # rest) = None"
  by (simp add: low_escape_def)

lemma low_escape_not_u: "e \<noteq> 117 \<Longrightarrow> low_escape (c # e # rest) = None"
  by (simp add: low_escape_def)

lemma low_escape_u:
  "unhex4 cs = Some (u, rest) \<Longrightarrow> \<not> is_low_surrogate u \<Longrightarrow> low_escape (92 # 117 # cs) = None"
  by (simp add: low_escape_def)

lemma low_escape_low:
  "unhex4 cs = Some (u, rest) \<Longrightarrow> is_low_surrogate u \<Longrightarrow> 4 < length cs \<Longrightarrow>
   low_escape (92 # 117 # cs) = Some (u, rest)"
  by (simp add: low_escape_def)

lemma high_half:
  assumes "0x10000 \<le> c" "c < 0x110000"
  shows "0xD800 + (c - 0x10000) div 1024 < 65536"
    and "is_high_surrogate (0xD800 + (c - 0x10000) div 1024)"
    and "\<not> is_low_surrogate (0xD800 + (c - 0x10000) div 1024)"
proof -
  have "(c - 0x10000) div 1024 < 1024" using assms by simp
  then show "0xD800 + (c - 0x10000) div 1024 < 65536"
    and "is_high_surrogate (0xD800 + (c - 0x10000) div 1024)"
    and "\<not> is_low_surrogate (0xD800 + (c - 0x10000) div 1024)"
    by (simp_all add: is_high_surrogate_def is_low_surrogate_def)
qed

lemma low_half:
  shows "0xDC00 + (c - 0x10000) mod 1024 < (65536::nat)"
    and "is_low_surrogate (0xDC00 + (c - 0x10000) mod 1024)"
proof -
  have "(c - 0x10000) mod 1024 < 1024" by simp
  then show "0xDC00 + (c - 0x10000) mod 1024 < (65536::nat)"
    and "is_low_surrogate (0xDC00 + (c - 0x10000) mod 1024)"
    by (simp_all add: is_low_surrogate_def)
qed

lemma join_halves:
  "0x10000 \<le> c \<Longrightarrow>
   join_surrogates (0xD800 + (c - 0x10000) div 1024) (0xDC00 + (c - 0x10000) mod 1024) = c"
  by (simp add: join_surrogates_def)

text \<open>The five shapes of an escaped character.\<close>

definition short_escape :: "nat \<Rightarrow> bool" where
  "short_escape c = (c = 34 \<or> c = 92 \<or> c = 10 \<or> c = 13 \<or> c = 9 \<or> c = 12 \<or> c = 8)"

lemma esc_char_short:
  "short_escape c \<Longrightarrow> \<exists>e. esc_char c = [92, e] \<and> e \<noteq> 117 \<and> unescape e = Some c"
  by (auto simp: short_escape_def esc_char_def unescape_def)

lemma esc_char_plain:
  "\<not> short_escape c \<Longrightarrow> 32 \<le> c \<Longrightarrow> c \<le> 126 \<Longrightarrow> esc_char c = [c]"
  by (auto simp: short_escape_def esc_char_def)

lemma esc_char_u:
  "\<not> short_escape c \<Longrightarrow> \<not> (32 \<le> c \<and> c \<le> 126) \<Longrightarrow> c < 0x10000 \<Longrightarrow>
   esc_char c = 92 # 117 # hex4 c"
  by (auto simp: short_escape_def esc_char_def)

lemma esc_char_pair:
  "0x10000 \<le> c \<Longrightarrow>
   esc_char c = 92 # 117 # hex4 (0xD800 + (c - 0x10000) div 1024)
                @ 92 # 117 # hex4 (0xDC00 + (c - 0x10000) mod 1024)"
  by (auto simp: esc_char_def)

lemma low_escape_esc_char:
  assumes "d < 0x110000" "\<not> is_low_surrogate d"
  shows "low_escape (esc_char d @ tail) = None"
proof (cases "short_escape d")
  case True
  from esc_char_short[OF True] obtain e where "esc_char d = [92, e]" "e \<noteq> 117" by blast
  then show ?thesis by (simp add: low_escape_not_u)
next
  case ns: False
  show ?thesis
  proof (cases "32 \<le> d \<and> d \<le> 126")
    case True
    with ns have "esc_char d = [d]" "d \<noteq> 92"
      by (auto simp: esc_char_plain short_escape_def)
    then show ?thesis by (simp add: low_escape_not_backslash)
  next
    case np: False
    show ?thesis
    proof (cases "d < 0x10000")
      case True
      have "unhex4 (hex4 d @ tail) = Some (d, tail)" using True by (simp add: unhex4_hex4)
      from low_escape_u[OF this assms(2)] show ?thesis
        by (simp add: esc_char_u[OF ns np True])
    next
      case False
      then have ge: "0x10000 \<le> d" by simp
      let ?hi = "0xD800 + (d - 0x10000) div 1024"
      let ?t = "92 # 117 # hex4 (0xDC00 + (d - 0x10000) mod 1024) @ tail"
      have "unhex4 (hex4 ?hi @ ?t) = Some (?hi, ?t)"
        using high_half(1)[OF ge assms(1)] by (simp add: unhex4_hex4)
      from low_escape_u[OF this high_half(3)[OF ge assms(1)]] show ?thesis
        by (simp add: esc_char_pair[OF ge])
    qed
  qed
qed

lemma low_escape_after:
  assumes "wf_str s" and "s = [] \<or> \<not> is_low_surrogate (hd s)"
  shows "low_escape (concat (map esc_char s) @ 34 # rest) = None"
proof (cases s)
  case Nil
  then show ?thesis by (simp add: low_escape_quote)
next
  case (Cons d s')
  with assms have "d < 0x110000" "\<not> is_low_surrogate d" by (simp_all add: wf_str_def)
  from low_escape_esc_char[OF this] Cons show ?thesis by simp
qed

lemma scanstring_roundtrip:
  "wf_str s \<Longrightarrow> no_surrogate_pair s \<Longrightarrow>
   scanstring (concat (map esc_char s) @ 34 # rest) acc = Some (acc @ s, rest)"
proof (induction s arbitrary: acc)
  case Nil
  then show ?case by (simp add: scanstring_quote)
next
  case (Cons c s)
  from Cons.prems have wf: "wf_str s" and c: "c < 0x110000" by (simp_all add: wf_str_def)
  from Cons.prems have nsp: "no_surrogate_pair s" by (cases s) auto
  let ?more = "concat (map esc_char s) @ 34 # rest"
  have IH: "scanstring ?more (acc @ [c]) = Some (acc @ c # s, rest)"
    using Cons.IH[OF wf nsp, of "acc @ [c]"] by simp
  show ?case
  proof (cases "short_escape c")
    case True
    from esc_char_short[OF True] obtain e where e: "esc_char c = [92, e]" "e \<noteq> 117"
      "unescape e = Some c" by blast
    show ?thesis using scanstring_short[OF e(3) e(2), of ?more acc] IH by (simp add: e(1))
  next
    case ns: False
    show ?thesis
    proof (cases "32 \<le> c \<and> c \<le> 126")
      case True
      with ns have p: "esc_char c = [c]" "c \<noteq> 34" "c \<noteq> 92" "32 \<le> c"
        by (auto simp: esc_char_plain short_escape_def)
      show ?thesis using scanstring_plain[OF p(2) p(3) p(4), of ?more acc] IH by (simp add: p(1))
    next
      case np: False
      show ?thesis
      proof (cases "c < 0x10000")
        case True
        have u: "unhex4 (hex4 c @ ?more) = Some (c, ?more)" using True by (simp add: unhex4_hex4)
        have nl: "s = [] \<or> \<not> is_low_surrogate (hd s)" if "is_high_surrogate c"
          using Cons.prems(2) that by (cases s) auto
        have "(if is_high_surrogate c then low_escape ?more else None) = None"
          using low_escape_after[OF wf nl] by simp
        from scanstring_u[OF u this, of acc] IH show ?thesis
          by (simp add: esc_char_u[OF ns np True])
      next
        case False
        then have ge: "0x10000 \<le> c" by simp
        let ?hi = "0xD800 + (c - 0x10000) div 1024"
        let ?lo = "0xDC00 + (c - 0x10000) mod 1024"
        let ?t = "92 # 117 # hex4 ?lo @ ?more"
        have u1: "unhex4 (hex4 ?hi @ ?t) = Some (?hi, ?t)"
          using high_half(1)[OF ge c] by (simp add: unhex4_hex4)
        have u2: "unhex4 (hex4 ?lo @ ?more) = Some (?lo, ?more)"
          using low_half(1)[of c] by (simp add: unhex4_hex4)
        have len: "4 < length (hex4 ?lo @ ?more)" by (simp add: hex4_def)
        have le: "low_escape ?t = Some (?lo, ?more)"
          by (rule low_escape_low[OF u2 low_half(2) len])
        from scanstring_pair[OF u1 high_half(2)[OF ge c] le, of acc] IH join_halves[OF ge]
        show ?thesis by (simp add: esc_char_pair[OF ge])
      qed
    qed
  qed
qed

lemma digits_small: "n < 10 \<Longrightarrow> digits n = [48 + n]"
  by (subst digits.simps) simp

lemma digits_large: "\<not> n < 10 \<Longrightarrow> digits n = digits (n div 10) @ [48 + n mod 10]"
  by (subst digits.simps) simp

lemma digits_all_digit: "list_all is_digit (digits n)"
proof (induction n rule: digits.induct)
  case (1 n)
  show ?case
  proof (cases "n < 10")
    case True
    then show ?thesis by (simp add: digits_small is_digit_def)
  next
    case False
    with 1 have "list_all is_digit (digits (n div 10))" by simp
    moreover have "is_digit (48 + n mod 10)"
      using pos_mod_bound[of 10 n] by (simp add: is_digit_def)
    ultimately show ?thesis using False by (simp add: digits_large)
  qed
qed

lemma digits_head:
  "0 < n \<Longrightarrow> \<exists>c t. digits n = c # t \<and> 49 \<le> c \<and> c \<le> 57 \<and> list_all is_digit t"
proof (induction n rule: digits.induct)
  case (1 n)
  show ?case
  proof (cases "n < 10")
    case True
    with "1.prems" show ?thesis by (simp add: digits_small)
  next
    case False
    then have "0 < n div 10" by simp
    from "1.IH"[OF False this] obtain c t where ct: "digits (n div 10) = c # t" "49 \<le> c" "c \<le> 57"
      "list_all is_digit t" by blast
    have "is_digit (48 + n mod 10)" using pos_mod_bound[of 10 n] by (simp add: is_digit_def)
    with ct False show ?thesis by (simp add: digits_large)
  qed
qed

lemma nat_of_digits_snoc: "nat_of_digits (xs @ [d]) = nat_of_digits xs * 10 + (d - 48)"
  by (simp add: nat_of_digits_def)

lemma nat_of_digits_digits: "nat_of_digits (digits n) = n"
proof (induction n rule: digits.induct)
  case (1 n)
  show ?case
  proof (cases "n < 10")
    case True
    then show ?thesis by (simp add: digits_small nat_of_digits_def)
  next
    case False
    with 1 have "nat_of_digits (digits (n div 10)) = n div 10" by simp
    with False show ?thesis by (simp add: digits_large nat_of_digits_snoc)
  qed
qed

text \<open>What may follow a number for the number to end there.\<close>

definition ends_number :: "pystr \<Rightarrow> bool" where
  "ends_number rest =
     (case rest of [] \<Rightarrow> True | c # r \<Rightarrow> \<not> is_digit c \<and> c \<noteq> 46 \<and> c \<noteq> 101 \<and> c \<noteq> 69)"

lemma takeWhile_digits:
  "list_all is_digit t \<Longrightarrow> ends_number rest \<Longrightarrow>
   takeWhile is_digit (t @ rest) = t \<and> dropWhile is_digit (t @ rest) = rest"
  by (induction t) (auto simp: ends_number_def split: list.splits)

lemma match_int_digits:
  assumes "ends_number rest"
  shows "match_int (digits n @ rest) = Some (digits n, rest)"
proof (cases "n = 0")
  case True
  then show ?thesis by (simp add: digits_small match_int_def)
next
  case False
  then obtain c t where ct: "digits n = c # t" "49 \<le> c" "c \<le> 57" "list_all is_digit t"
    using digits_head[of n] by auto
  from takeWhile_digits[OF ct(4) assms] ct show ?thesis
    by (simp add: match_int_def)
qed

lemma match_int_neg:
  assumes "ends_number rest" "0 < n"
  shows "match_int (45 # digits n @ rest) = Some (45 # digits n, rest)"
proof -
  obtain c t where ct: "digits n = c # t" "49 \<le> c" "c \<le> 57" "list_all is_digit t"
    using digits_head[OF assms(2)] by auto
  from takeWhile_digits[OF ct(4) assms(1)] ct show ?thesis
    by (simp add: match_int_def)
qed

lemma digits_not_minus: "hd (digits n) \<noteq> 45 \<and> digits n \<noteq> []"
  using digits_all_digit[of n] digits_head[of n]
  by (cases "n = 0") (auto simp: digits_small is_digit_def)

lemma int_of_lexeme_repr: "int_of_lexeme (repr_int i) = i"
proof (cases "i < 0")
  case True
  then show ?thesis by (simp add: repr_int_def int_of_lexeme_def nat_of_digits_digits)
next
  case False
  obtain c t where ct: "digits (nat i) = c # t" "c \<noteq> 45"
    using digits_not_minus[of "nat i"] by (cases "digits (nat i)") auto
  have "nat_of_digits (c # t) = nat i" using nat_of_digits_digits[of "nat i"] ct by simp
  with False ct show ?thesis by (simp add: repr_int_def int_of_lexeme_def)
qed

lemma match_int_repr:
  "ends_number rest \<Longrightarrow> match_int (repr_int i @ rest) = Some (repr_int i, rest)"
  by (simp add: repr_int_def match_int_digits match_int_neg)

lemma match_frac_none: "ends_number rest \<Longrightarrow> match_frac rest = ([], rest)"
  by (auto simp: match_frac_def ends_number_def split: list.splits)

lemma match_exp_none: "ends_number rest \<Longrightarrow> match_exp rest = ([], rest)"
  by (auto simp: match_exp_def ends_number_def split: list.splits)

lemma match_number_repr:
  "ends_number rest \<Longrightarrow> match_number pf (repr_int i @ rest) = Some (JInt i, rest)"
  by (simp add: match_number_def match_int_repr match_frac_none match_exp_none int_of_lexeme_repr)

lemma repr_int_head:
  "\<exists>c t. repr_int i = c # t \<and> (c = 45 \<and> t \<noteq> [] \<and> is_digit (hd t) \<or> is_digit c)"
proof (cases "i < 0")
  case True
  obtain c t where "digits (nat (- i)) = c # t" "is_digit c"
    using digits_all_digit[of "nat (- i)"] digits_not_minus[of "nat (- i)"]
    by (cases "digits (nat (- i))") auto
  with True show ?thesis by (simp add: repr_int_def)
next
  case False
  obtain c t where "digits (nat i) = c # t" "is_digit c"
    using digits_all_digit[of "nat i"] digits_not_minus[of "nat i"]
    by (cases "digits (nat i)") auto
  with False show ?thesis by (simp add: repr_int_def)
qed

lemma scan_once_int:
  assumes "ends_number rest"
  shows "scan_once (Suc n) pf (repr_int i @ rest) = Some (JInt i, rest)"
proof -
  obtain c t where ct: "repr_int i = c # t"
    and h: "c = 45 \<and> t \<noteq> [] \<and> is_digit (hd t) \<or> is_digit c"
    using repr_int_head[of i] by blast
  have m: "match_number pf (c # t @ rest) = Some (JInt i, rest)"
    using match_number_repr[OF assms, of pf i] ct by simp
  from h show ?thesis
  proof
    assume a: "c = 45 \<and> t \<noteq> [] \<and> is_digit (hd t)"
    then obtain d t' where t: "t = d # t'" "is_digit d" by (cases t) auto
    then have "\<not> starts_with (ascii ''Infinity'') (t @ rest)"
      by (auto simp: starts_with_def ascii_def is_digit_def)
    with a m show ?thesis by (simp add: ct)
  next
    assume "is_digit c"
    then have "c \<noteq> 34" "c \<noteq> 123" "c \<noteq> 91" "c \<noteq> 110" "c \<noteq> 116" "c \<noteq> 102" "c \<noteq> 78"
      "c \<noteq> 73" "c \<noteq> 45" by (auto simp: is_digit_def)
    with m show ?thesis by (simp add: ct)
  qed
qed

lemma scan_once_str:
  "wf_str s \<Longrightarrow> no_surrogate_pair s \<Longrightarrow>
   scan_once (Suc n) pf (encode_basestring_ascii s @ rest) = Some (JStr s, rest)"
  using scanstring_roundtrip[of s rest "[]"]
  by (simp add: encode_basestring_ascii_def)

lemma scan_once_bool:
  "scan_once (Suc n) pf (dumps fr (JBool b) @ rest) = Some (JBool b, rest)"
  by (cases b) (simp_all add: ascii_def starts_with_def)

text \<open>
  The payloads of the claim: a dict with string keys whose values are strings, integers
  or booleans. A float value is outside: its text and its parsing are parameters.
\<close>

fun flat_value :: "'f json \<Rightarrow> bool" where
  "flat_value (JStr s) = good_str s"
| "flat_value (JInt i) = True"
| "flat_value (JBool b) = True"
| "flat_value v = False"

definition flat_payload :: "(pystr \<times> 'f json) list \<Rightarrow> bool" where
  "flat_payload kvs =
     (distinct (map fst kvs) \<and> list_all (\<lambda>kv. good_str (fst kv) \<and> flat_value (snd kv)) kvs)"

text \<open>One \<open>"key": value\<close> entry of the text of a dict.\<close>

definition item :: "('f \<Rightarrow> pystr) \<Rightarrow> pystr \<times> 'f json \<Rightarrow> pystr" where
  "item fr kv = encode_basestring_ascii (fst kv) @ [58, 32] @ dumps fr (snd kv)"

lemma dumps_obj: "dumps fr (JObj kvs) = 123 # join_sep (map (item fr) kvs) @ [125]"
proof -
  have "item fr = (\<lambda>kv. encode_basestring_ascii (fst kv) @ [58, 32] @ dumps fr (snd kv))"
    by (rule ext) (simp add: item_def)
  then show ?thesis by simp
qed

lemma skip_ws_id: "s = [] \<or> \<not> is_ws (hd s) \<Longrightarrow> skip_ws s = s"
  by (cases s) (auto simp: skip_ws_def)

lemma skip_ws_space: "skip_ws (32 # s) = skip_ws s"
  by (simp add: skip_ws_def is_ws_def)

lemma dumps_flat_head:
  "flat_value v \<Longrightarrow> \<exists>c t. dumps fr v = c # t \<and> \<not> is_ws c"
proof (cases v)
  case (JInt i)
  obtain c t where "repr_int i = c # t" "c = 45 \<and> t \<noteq> [] \<and> is_digit (hd t) \<or> is_digit c"
    using repr_int_head[of i] by blast
  with JInt show ?thesis by (auto simp: is_ws_def is_digit_def)
qed (auto simp: encode_basestring_ascii_def is_ws_def ascii_def)

lemma scan_once_flat:
  assumes "flat_value v" "ends_number rest"
  shows "scan_once (Suc n) pf (dumps fr v @ rest) = Some (v, rest)"
proof (cases v)
  case (JStr s)
  with assms show ?thesis using scan_once_str[of s n pf rest] by (simp add: good_str_def)
next
  case (JInt i)
  with assms show ?thesis using scan_once_int[of rest n pf i] by simp
next
  case (JBool b)
  then show ?thesis using scan_once_bool[of n pf fr b rest] by simp
qed (use assms in auto)

lemma dict_setitem_new: "k \<notin> fst ` set d \<Longrightarrow> dict_setitem k v d = d @ [(k, v)]"
  by (induction d) auto

lemma ends_number_simps [simp]: "ends_number (125 # r)" "ends_number (44 # r)"
  by (simp_all add: ends_number_def is_digit_def)

lemma item_head: "\<exists>t. item fr kv @ rest = 34 # t"
  by (simp add: item_def encode_basestring_ascii_def)

lemma join_sep_head:
  "\<exists>t. join_sep (map (item fr) (kv # kvs)) @ rest = 34 # t"
proof (cases kvs)
  case Nil
  then show ?thesis using item_head[of fr kv rest] by simp
next
  case (Cons a as)
  then show ?thesis using item_head[of fr kv "[44, 32] @ join_sep (map (item fr) (a # as)) @ rest"]
    by simp
qed

lemma parse_one_item:
  assumes k: "good_str (fst kv)" and v: "flat_value (snd kv)" and e: "ends_number tail"
  shows "parse_object_items (Suc (Suc n)) pf acc (item fr kv @ tail) =
     (case skip_ws tail of
        [] \<Rightarrow> None
      | e # r3 \<Rightarrow>
          if e = 125 then Some (JObj (dict_setitem (fst kv) (snd kv) acc), r3)
          else if e = 44
          then parse_object_items (Suc n) pf (dict_setitem (fst kv) (snd kv) acc) (skip_ws r3)
          else None)"
proof -
  let ?after = "58 # 32 # dumps fr (snd kv) @ tail"
  have s: "scanstring (concat (map esc_char (fst kv)) @ 34 # ?after) [] = Some (fst kv, ?after)"
    using scanstring_roundtrip[of "fst kv" ?after "[]"] k by (simp add: good_str_def)
  have w1: "skip_ws ?after = ?after" by (simp add: skip_ws_id is_ws_def)
  obtain c t where ct: "dumps fr (snd kv) = c # t" "\<not> is_ws c"
    using dumps_flat_head[OF v, of fr] by blast
  have w2: "skip_ws (32 # dumps fr (snd kv) @ tail) = dumps fr (snd kv) @ tail"
    using ct by (simp add: skip_ws_space skip_ws_id)
  have val: "scan_once (Suc n) pf (dumps fr (snd kv) @ tail) = Some (snd kv, tail)"
    by (rule scan_once_flat[OF v e])
  show ?thesis
    by (simp add: item_def encode_basestring_ascii_def s w1 w2 val)
qed

lemma parse_items:
  "list_all (\<lambda>kv. good_str (fst kv) \<and> flat_value (snd kv)) (kv # kvs) \<Longrightarrow>
   distinct (map fst acc @ map fst (kv # kvs)) \<Longrightarrow>
   length kvs \<le> n \<Longrightarrow>
   parse_object_items (Suc (Suc n)) pf acc (join_sep (map (item fr) (kv # kvs)) @ 125 # rest)
     = Some (JObj (acc @ kv # kvs), rest)"
proof (induction kvs arbitrary: kv acc n)
  case Nil
  then have k: "good_str (fst kv)" and v: "flat_value (snd kv)" and new: "fst kv \<notin> fst ` set acc"
    by auto
  show ?case
    using parse_one_item[OF k v, of "125 # rest" n pf acc fr]
    by (simp add: skip_ws_id is_ws_def dict_setitem_new[OF new])
next
  case (Cons kv' kvs)
  from Cons.prems have k: "good_str (fst kv)" and v: "flat_value (snd kv)"
    and new: "fst kv \<notin> fst ` set acc" by auto
  obtain m where n: "n = Suc m" using Cons.prems(3) by (cases n) auto
  let ?next = "join_sep (map (item fr) (kv' # kvs)) @ 125 # rest"
  obtain t where t: "?next = 34 # t" using join_sep_head[of fr kv' kvs "125 # rest"] by blast
  have w: "skip_ws (32 # ?next) = ?next"
    unfolding skip_ws_space using t by (simp add: skip_ws_id is_ws_def)
  have all': "list_all (\<lambda>kv. good_str (fst kv) \<and> flat_value (snd kv)) (kv' # kvs)"
    using Cons.prems(1) by simp
  have d': "distinct (map fst (acc @ [kv]) @ map fst (kv' # kvs))"
    using Cons.prems(2) by simp
  have len: "length kvs \<le> m" using Cons.prems(3) n by simp
  have IH: "parse_object_items (Suc (Suc m)) pf (acc @ [kv]) ?next
              = Some (JObj ((acc @ [kv]) @ kv' # kvs), rest)"
    by (rule Cons.IH[OF all' d' len])
  have step: "parse_object_items (Suc (Suc n)) pf acc (item fr kv @ 44 # 32 # ?next)
     = parse_object_items (Suc n) pf (acc @ [kv]) ?next"
    using parse_one_item[OF k v, of "44 # 32 # ?next" n pf acc fr] w
    by (simp add: skip_ws_id is_ws_def dict_setitem_new[OF new])
  show ?case using step IH n by simp
qed

lemma join_sep_length: "length xs \<le> length (join_sep xs) + 1"
  by (induction xs rule: join_sep.induct) auto

lemma scan_once_flat_obj:
  assumes "flat_payload kvs" "length kvs \<le> Suc n"
  shows "scan_once (Suc (Suc (Suc n))) pf (dumps fr (JObj kvs) @ rest) = Some (JObj kvs, rest)"
proof (cases kvs)
  case Nil
  then show ?thesis by (simp add: skip_ws_id is_ws_def)
next
  case (Cons kv kvs')
  obtain t where t: "join_sep (map (item fr) (kv # kvs')) @ 125 # rest = 34 # t"
    using join_sep_head[of fr kv kvs' "125 # rest"] by blast
  have p: "parse_object_items (Suc (Suc n)) pf [] (join_sep (map (item fr) (kv # kvs')) @ 125 # rest)
     = Some (JObj (kv # kvs'), rest)"
    using parse_items[of kv kvs' "[]" n pf fr rest] assms Cons by (simp add: flat_payload_def)
  show ?thesis
    using p t Cons by (simp add: dumps_obj skip_ws_id is_ws_def del: dumps.simps)
qed

lemma loads_flat_obj:
  assumes "flat_payload kvs"
  shows "loads pf (dumps fr (JObj kvs)) = Some (JObj kvs)"
proof -
  let ?s = "dumps fr (JObj kvs)"
  have hd: "?s = 123 # join_sep (map (item fr) kvs) @ [125]" by (rule dumps_obj)
  have len: "length kvs \<le> length ?s" using join_sep_length[of "map (item fr) kvs"] hd by simp
  obtain n where n: "2 * length ?s + 2 = Suc (Suc (Suc n))" "length kvs \<le> Suc n"
  proof -
    have "0 < length ?s" using hd by simp
    then have "2 * length ?s + 2 = Suc (Suc (Suc (2 * length ?s - 1)))" by simp
    moreover have "length kvs \<le> Suc (2 * length ?s - 1)" using len by simp
    ultimately show ?thesis using that by blast
  qed
  have b: "\<not> starts_with [0xFEFF] ?s" using hd by (simp add: starts_with_def)
  have w: "skip_ws ?s = ?s" using hd by (simp add: skip_ws_id is_ws_def)
  have "scan_once (2 * length ?s + 2) pf ?s = Some (JObj kvs, [])"
    using scan_once_flat_obj[OF assms n(2), of pf fr "[]"] n(1) by simp
  then show ?thesis using b w by (simp add: loads_def skip_ws_def del: dumps.simps)
qed

text \<open>Text without a null character: the padding cannot be confused with it.\<close>

definition no_null :: "pystr \<Rightarrow> bool" where
  "no_null s = list_all (\<lambda>c. c \<noteq> 0) s"

lemma no_null_simps [simp]:
  "no_null []" "no_null (c # cs) = (c \<noteq> 0 \<and> no_null cs)"
  "no_null (xs @ ys) = (no_null xs \<and> no_null ys)"
  by (simp_all add: no_null_def)

lemma no_null_concat: "(\<forall>x\<in>set xss. no_null x) \<Longrightarrow> no_null (concat xss)"
  by (induction xss) simp_all

lemma hex4_no_null: "no_null (hex4 n)"
  by (simp add: hex4_def hexdigit_def)

lemma esc_char_no_null: "no_null (esc_char c)"
  by (simp add: esc_char_def hex4_no_null)

lemma encode_basestring_no_null: "no_null (encode_basestring_ascii s)"
  by (simp add: encode_basestring_ascii_def no_null_concat esc_char_no_null)

lemma digits_no_null: "no_null (digits n)"
  using digits_all_digit[of n] by (auto simp: no_null_def list_all_iff is_digit_def)

lemma repr_int_no_null: "no_null (repr_int i)"
  by (simp add: repr_int_def digits_no_null)

lemma repr_int_ascii: "is_ascii (repr_int i)"
  by (simp add: repr_int_def digits_ascii)

lemma join_sep_all:
  "(\<forall>x\<in>set xs. no_null x) \<Longrightarrow> no_null (join_sep xs)"
  "(\<forall>x\<in>set xs. is_ascii x) \<Longrightarrow> is_ascii (join_sep xs)"
  by (induction xs rule: join_sep.induct) simp_all

lemma dumps_flat_value:
  "flat_value v \<Longrightarrow> no_null (dumps fr v) \<and> is_ascii (dumps fr v)"
  by (cases v)
     (simp_all add: encode_basestring_no_null encode_basestring_ascii_is_ascii repr_int_no_null
        repr_int_ascii ascii_def)

lemma item_flat:
  "flat_value (snd kv) \<Longrightarrow> no_null (item fr kv) \<and> is_ascii (item fr kv)"
  by (simp add: item_def encode_basestring_no_null encode_basestring_ascii_is_ascii dumps_flat_value)

lemma dumps_flat_obj:
  assumes "flat_payload kvs"
  shows "no_null (dumps fr (JObj kvs))" and "is_ascii (dumps fr (JObj kvs))"
proof -
  have "\<forall>kv\<in>set kvs. flat_value (snd kv)" using assms by (auto simp: flat_payload_def list_all_iff)
  then have "\<forall>x\<in>set (map (item fr) kvs). no_null x" "\<forall>x\<in>set (map (item fr) kvs). is_ascii x"
    using item_flat[of _ fr] by auto
  then show "no_null (dumps fr (JObj kvs))" and "is_ascii (dumps fr (JObj kvs))"
    by (simp_all add: dumps_obj join_sep_all del: dumps.simps)
qed

lemma utf8_decode_ascii: "is_ascii s \<Longrightarrow> utf8_decode s = Some s"
  by (induction s) simp_all

lemma filter_no_null: "no_null s \<Longrightarrow> filter (\<lambda>c. c \<noteq> 0) (s @ replicate k 0) = s"
  by (induction s) simp_all

lemma good_str_keys: "good_str (ascii ''length'')" "good_str (ascii ''subject'')"
  by (simp_all add: good_str_def wf_str_def ascii_def is_high_surrogate_def)

lemma header_dict_flat: "good_str subj \<Longrightarrow> flat_payload [(ascii ''length'', JInt (int n)), (ascii ''subject'', JStr subj)]"
  by (simp add: flat_payload_def good_str_keys) (simp add: ascii_def)

lemma parse_header_roundtrip:
  assumes "good_str subj"
  shows "parse_header pf (header_text n subj @ replicate k 0) = Header (JInt (int n)) (JStr subj)"
proof -
  let ?d = "[(ascii ''length'', JInt (int n)), (ascii ''subject'', JStr subj)] :: (pystr \<times> 'a json) list"
  have fp: "flat_payload ?d" by (rule header_dict_flat[OF assms])
  have t: "dumps (\<lambda>x. []) (JObj ?d) = header_text n subj"
    using dumps_header[of "\<lambda>x. []" n subj] by (simp add: header_dict_def del: dumps.simps)
  have nn: "no_null (header_text n subj)" using dumps_flat_obj(1)[OF fp, of "\<lambda>x. []"] unfolding t .
  have a: "is_ascii (header_text n subj @ replicate k 0)"
    by (simp add: header_text_ascii) (simp add: is_ascii_def list_all_iff)
  have l: "loads pf (header_text n subj) = Some (JObj ?d)"
    using loads_flat_obj[OF fp, of pf "\<lambda>x. []"] unfolding t .
  have f: "filter (\<lambda>c. c \<noteq> 0) (header_text n subj @ replicate k 0) = header_text n subj"
    by (rule filter_no_null[OF nn])
  have g: "getitem (JObj ?d) (ascii ''length'') = Inr (JInt (int n))"
    "getitem (JObj ?d) (ascii ''subject'') = Inr (JStr subj)"
    by (simp_all add: ascii_def)
  show ?thesis
    by (simp only: parse_header_def utf8_decode_ascii[OF a] option.case f l g sum.case)
qed



text \<open>A float parser for the concrete cases below, none of which holds a float.\<close>

definition pf0 :: "pystr \<Rightarrow> unit" where "pf0 s = ()"
















subsection \<open>Decoding of the header\<close>

lemma utf8_decode_append:
  "utf8_decode xs = Some tx \<Longrightarrow> utf8_decode (xs @ ys) = map_option ((@) tx) (utf8_decode ys)"
proof (induction xs arbitrary: tx rule: utf8_decode.induct)
  case 1
  then show ?case by (simp add: option.map_ident)
next
  case (2 b bs)
  show ?case
  proof (cases "b < 0x80")
    case True
    with "2.prems" obtain t where t: "utf8_decode bs = Some t" "tx = b # t" by auto
    with "2.IH"(1)[OF True t(1)] True show ?thesis by (simp add: option.map_comp comp_def)
  next
    case nb: False
    show ?thesis
    proof (cases "0xC2 \<le> b \<and> b \<le> 0xDF")
      case True
      with nb "2.prems" obtain b1 r t where
        bs: "bs = b1 # r" and c: "is_cont b1" and t: "utf8_decode r = Some t"
        and tx: "tx = ((b - 0xC0) * 64 + (b1 - 0x80)) # t"
        by (auto split: list.splits if_splits)
      from "2.IH"(2)[OF nb True bs c t] nb True bs c tx show ?thesis
        by (simp add: option.map_comp comp_def)
    next
      case n2: False
      show ?thesis
      proof (cases "0xE0 \<le> b \<and> b \<le> 0xEF")
        case True
        with nb n2 "2.prems" obtain b1 b2 r t where
          bs: "bs = b1 # b2 # r"
          and c: "is_cont b1 \<and> is_cont b2 \<and> (b \<noteq> 0xE0 \<or> 0xA0 \<le> b1) \<and> (b \<noteq> 0xED \<or> b1 \<le> 0x9F)"
          and t: "utf8_decode r = Some t"
          and tx: "tx = ((b - 0xE0) * 4096 + (b1 - 0x80) * 64 + (b2 - 0x80)) # t"
          by (auto split: list.splits if_splits)
        from "2.IH"(3)[OF nb n2 True bs refl c t] nb n2 True bs c tx show ?thesis
          by (simp add: option.map_comp comp_def)
      next
        case n3: False
        with nb n2 "2.prems" have f4: "0xF0 \<le> b \<and> b \<le> 0xF4" by (auto split: if_splits)
        with nb n2 n3 "2.prems" obtain b1 b2 b3 r t where
          bs: "bs = b1 # b2 # b3 # r"
          and c: "is_cont b1 \<and> is_cont b2 \<and> is_cont b3 \<and> (b \<noteq> 0xF0 \<or> 0x90 \<le> b1) \<and> (b \<noteq> 0xF4 \<or> b1 \<le> 0x8F)"
          and t: "utf8_decode r = Some t"
          and tx: "tx = ((b - 0xF0) * 262144 + (b1 - 0x80) * 4096 + (b2 - 0x80) * 64 + (b3 - 0x80)) # t"
          by (auto split: list.splits if_splits)
        from "2.IH"(4)[OF nb n2 n3 f4 bs refl refl c t] nb n2 n3 f4 bs c tx show ?thesis
          by (simp add: option.map_comp comp_def)
      qed
    qed
  qed
qed

lemma parse_header_null:
  assumes "utf8_decode xs = Some tx"
  shows "parse_header pf (xs @ 0 # ys) = parse_header pf (xs @ ys)"
proof (cases "utf8_decode ys")
  case None
  then show ?thesis
    by (simp add: parse_header_def utf8_decode_append[OF assms])
next
  case (Some ty)
  then show ?thesis
    by (simp add: parse_header_def utf8_decode_append[OF assms])
qed

lemma parse_header_Header:
  "parse_header pf raw = Header l s \<longleftrightarrow>
   (\<exists>t h. utf8_decode raw = Some t \<and> loads pf (filter (\<lambda>c. c \<noteq> 0) t) = Some h \<and>
      getitem h (ascii ''length'') = Inr l \<and> getitem h (ascii ''subject'') = Inr s)"
  by (auto simp: parse_header_def split: option.splits sum.splits)

text \<open>
  Claim C8, as amended. For a block that is valid UTF-8, the decode removes every null
  character, wherever it stands: a null byte after any complete prefix of the block
  changes nothing of the result. What remains is parsed as JSON; the decode yields
  \<open>(length, subject)\<close> exactly when that text parses to a dict holding both entries,
  and the frame is dropped as malformed when the text does not parse.
\<close>

theorem header_decoding:
  "(utf8_decode xs = Some tx \<longrightarrow> parse_header pf (xs @ 0 # ys) = parse_header pf (xs @ ys)) \<and>
   (parse_header pf raw = Header l s \<longleftrightarrow>
      (\<exists>t h. utf8_decode raw = Some t \<and> loads pf (filter (\<lambda>c. c \<noteq> 0) t) = Some h \<and>
         getitem h (ascii ''length'') = Inr l \<and> getitem h (ascii ''subject'') = Inr s)) \<and>
   (utf8_decode raw = Some t \<and> loads pf (filter (\<lambda>c. c \<noteq> 0) t) = None
      \<longrightarrow> parse_header pf raw = Dropped)"
proof (intro conjI impI)
  assume "utf8_decode xs = Some tx"
  then show "parse_header pf (xs @ 0 # ys) = parse_header pf (xs @ ys)"
    by (rule parse_header_null)
next
  show "parse_header pf raw = Header l s \<longleftrightarrow>
      (\<exists>t h. utf8_decode raw = Some t \<and> loads pf (filter (\<lambda>c. c \<noteq> 0) t) = Some h \<and>
         getitem h (ascii ''length'') = Inr l \<and> getitem h (ascii ''subject'') = Inr s)"
    by (rule parse_header_Header)
next
  assume "utf8_decode raw = Some t \<and> loads pf (filter (\<lambda>c. c \<noteq> 0) t) = None"
  then show "parse_header pf raw = Dropped" by (simp add: parse_header_def)
qed

text \<open>
  What the claim describes, for comparison: removing the null characters at the end
  only.
\<close>

definition strip_trailing_nulls :: "pystr \<Rightarrow> pystr" where
  "strip_trailing_nulls s = rev (dropWhile (\<lambda>c. c = 0) (rev s))"

text \<open>
  A 64-byte block with a null byte inside: \<open>{"length": 2,\<close> then a null byte, then
  \<open> "subject": "one"}\<close> and 32 null bytes of padding.
\<close>

definition header_front :: pybytes where
  "header_front = [123, 34, 108, 101, 110, 103, 116, 104, 34, 58, 32, 50, 44]"

definition header_back :: pybytes where
  "header_back = [32, 34, 115, 117, 98, 106, 101, 99, 116, 34, 58, 32, 34, 111, 110, 101, 34, 125]"

lemma strip_trailing_nulls_padding:
  "xs \<noteq> [] \<Longrightarrow> last xs \<noteq> 0 \<Longrightarrow> strip_trailing_nulls (xs @ replicate k 0) = xs"
proof -
  assume a: "xs \<noteq> []" "last xs \<noteq> 0"
  have "dropWhile (\<lambda>c. c = 0) (replicate k 0 @ rev xs) = dropWhile (\<lambda>c. c = 0) (rev xs)"
    by (induction k) simp_all
  also have "\<dots> = rev xs" using a by (cases "rev xs") (auto simp: last_rev[symmetric] hd_rev)
  finally show ?thesis by (simp add: strip_trailing_nulls_def)
qed

lemma front_back_text: "header_front @ header_back = header_text 2 (ascii ''one'')"
  by (simp add: header_front_def header_back_def header_text_def digits_small ascii_def
      esc_char_def)

lemma front_back_padded:
  "header_front @ header_back @ r = header_text 2 (ascii ''one'') @ r"
  using front_back_text by (metis append_assoc)

lemma good_one: "good_str (ascii ''one'')"
  by (simp add: good_str_def wf_str_def ascii_def is_high_surrogate_def)

lemma front_ascii: "utf8_decode header_front = Some header_front"
  by (rule utf8_decode_ascii) (simp add: header_front_def)

lemma inner_null_rejected:
  "scan_once n pf (header_front @ 0 # header_back) = None"
proof (cases n)
  case 0
  then show ?thesis by simp
next
  case n1: (Suc n1)
  show ?thesis
  proof (cases n1)
    case 0
    with n1 show ?thesis
      by (simp add: header_front_def header_back_def skip_ws_def is_ws_def)
  next
    case n2: (Suc n2)
    show ?thesis
    proof (cases n2)
      case 0
      with n1 n2 show ?thesis
        by (simp add: header_front_def header_back_def skip_ws_def is_ws_def scanstring.simps)
    next
      case (Suc n3)
      with n1 n2 show ?thesis
        by (simp add: header_front_def header_back_def skip_ws_def is_ws_def scanstring.simps
            match_number_def match_int_def match_frac_def match_exp_def is_digit_def
            starts_with_def ascii_def)
    qed
  qed
qed

text \<open>
  Claim C8 as stated fails: the block has a null byte before non-null content (byte 13
  is null, byte 14 is a space), and the decode succeeds with length 2 and subject
  \<open>one\<close>: the inner null was removed. Had only the trailing nulls been removed, the text
  would not parse.
\<close>

theorem inner_null_is_removed:
  "length (header_front @ 0 # header_back @ replicate 32 0) = 64 \<and>
   (header_front @ 0 # header_back @ replicate 32 0) ! 13 = 0 \<and>
   (header_front @ 0 # header_back @ replicate 32 0) ! 14 = 32 \<and>
   parse_header pf0 (header_front @ 0 # header_back @ replicate 32 0)
     = Header (JInt 2) (JStr (ascii ''one'')) \<and>
   loads pf0 (strip_trailing_nulls (header_front @ 0 # header_back @ replicate 32 0)) = None"
proof -
  have l: "length (header_front @ 0 # header_back @ replicate 32 0) = 64"
    "(header_front @ 0 # header_back @ replicate 32 0) ! 13 = 0"
    "(header_front @ 0 # header_back @ replicate 32 0) ! 14 = 32"
    by (simp_all add: header_front_def header_back_def nth_append)
  have "parse_header pf0 (header_front @ 0 # header_back @ replicate 32 0)
          = parse_header pf0 (header_front @ header_back @ replicate 32 0)"
    by (rule parse_header_null[OF front_ascii])
  also have "\<dots> = parse_header pf0 (header_text 2 (ascii ''one'') @ replicate 32 0)"
    by (simp only: front_back_padded)
  also have "\<dots> = Header (JInt 2) (JStr (ascii ''one''))"
    using parse_header_roundtrip[OF good_one, of pf0 2 32] by simp
  finally have p: "parse_header pf0 (header_front @ 0 # header_back @ replicate 32 0)
     = Header (JInt 2) (JStr (ascii ''one''))" .
  have s: "strip_trailing_nulls ((header_front @ 0 # header_back) @ replicate 32 0)
     = header_front @ 0 # header_back"
    by (rule strip_trailing_nulls_padding) (simp_all add: header_back_def)
  have b: "\<not> starts_with [0xFEFF] (header_front @ 0 # header_back)"
    by (simp add: starts_with_def header_front_def)
  have w: "skip_ws (header_front @ 0 # header_back) = header_front @ 0 # header_back"
    by (simp add: skip_ws_def is_ws_def header_front_def)
  have "loads pf0 (header_front @ 0 # header_back) = None"
    by (simp only: loads_def b if_False w inner_null_rejected option.case)
  with s have n: "loads pf0 (strip_trailing_nulls (header_front @ 0 # header_back @ replicate 32 0)) = None"
    by simp
  show ?thesis using l p n by simp
qed

lemma scan_once_x: "scan_once n pf (120 # cs) = None"
  by (cases n) (simp_all add: match_number_def match_int_def)

lemma loads_x: "loads pf (120 # cs) = None"
  by (simp add: loads_def starts_with_def skip_ws_def is_ws_def scan_once_x)

theorem header_decoding_witness:
  "utf8_decode header_front = Some header_front \<and>
   parse_header pf0 (header_front @ 0 # header_back @ replicate 32 0)
     = parse_header pf0 (header_front @ header_back @ replicate 32 0) \<and>
   parse_header pf0 (header_front @ header_back @ replicate 32 0)
     = Header (JInt 2) (JStr (ascii ''one'')) \<and>
   utf8_decode (120 # replicate 63 120) = Some (120 # replicate 63 120) \<and>
   loads pf0 (filter (\<lambda>c. c \<noteq> 0) (120 # replicate 63 120)) = None \<and>
   parse_header pf0 (120 # replicate 63 120) = Dropped"
proof -
  have b: "parse_header pf0 (header_front @ header_back @ replicate 32 0)
      = Header (JInt 2) (JStr (ascii ''one''))"
    using parse_header_roundtrip[OF good_one, of pf0 2 32] by (simp only: front_back_padded) simp
  have c: "utf8_decode (120 # replicate 63 120) = Some (120 # replicate 63 120)"
    by (rule utf8_decode_ascii) (simp add: is_ascii_def list_all_iff)
  have d: "loads pf0 (filter (\<lambda>c. c \<noteq> 0) (120 # replicate 63 120)) = None"
    by (simp add: loads_x)
  note t = header_decoding[of header_front header_front pf0 "header_back @ replicate 32 0"
      "120 # replicate 63 120" "JInt 2" "JStr (ascii ''one'')" "120 # replicate 63 120"]
  show ?thesis using t front_ascii b c d by simp
qed

end
